theory Spec2Isabelle
  imports Complex_Main "HOL-Library.AList"
begin

section \<open>Behavior scheduler (src/behaviors/behavior_module.py)\<close>

text \<open>
  Python floats are modelled as \<open>real\<close> (no rounding), Python ints as \<open>int\<close>.
  A \<open>BehaviorAction\<close> is one pose of a behavior, a \<open>Behavior\<close> the dataclass of the
  same name. The position fields \<open>x\<close>, \<open>y\<close>, \<open>z\<close> of the source are \<open>pos_x\<close>, \<open>pos_y\<close>,
  \<open>pos_z\<close> here.
\<close>

record BehaviorAction =
  roll :: real
  pitch :: real
  yaw :: real
  pos_x :: real
  pos_y :: real
  pos_z :: real
  duration :: real
  blocking :: bool

record Behavior =
  name :: string
  actions :: "BehaviorAction list"
  interruptible :: bool
  priority :: int

text \<open>
  The fields of \<open>BehaviorManager\<close> that \<open>execute_behavior\<close>, \<open>stop_current\<close> and the
  worker's \<open>finally\<close> block read or write. \<open>behavior_thread\<close> is the behavior the
  current thread object was started for (\<open>None\<close> before the first start),
  \<open>thread_alive\<close> what \<open>behavior_thread.is_alive()\<close> answers, \<open>stop_flag\<close> the
  \<open>threading.Event\<close>.
\<close>

record BehaviorManager =
  current_behavior :: "Behavior option"
  behavior_thread :: "Behavior option"
  thread_alive :: bool
  stop_flag :: bool
  behaviors_executed :: int
  behaviors_interrupted :: int

definition new_BehaviorManager :: BehaviorManager where
  "new_BehaviorManager =
     \<lparr>current_behavior = None, behavior_thread = None, thread_alive = False,
      stop_flag = False, behaviors_executed = 0, behaviors_interrupted = 0\<rparr>"

text \<open>
  \<open>stop_current\<close>: sets the stop flag when a live thread exists and joins it with a
  timeout; whether the join succeeds is only logged.
\<close>

definition stop_current :: "BehaviorManager \<Rightarrow> BehaviorManager" where
  "stop_current m =
     (if behavior_thread m \<noteq> None \<and> thread_alive m then m\<lparr>stop_flag := True\<rparr> else m)"

text \<open>
  \<open>execute_behavior\<close> runs wholly inside \<open>with self.lock\<close>; the worker only touches
  the manager under the same lock, so the body is one atomic step. It returns the
  boolean result and the manager afterwards.
\<close>

definition execute_behavior :: "BehaviorManager \<Rightarrow> Behavior \<Rightarrow> bool \<times> BehaviorManager" where
  "execute_behavior m behavior =
     (case current_behavior m of
        Some cur \<Rightarrow>
          if \<not> interruptible cur then (False, m)
          else if priority behavior \<le> priority cur then (False, m)
          else
            (let m1 = stop_current m;
                 m2 = m1\<lparr>behaviors_interrupted := behaviors_interrupted m1 + 1\<rparr>
             in (True, m2\<lparr>current_behavior := Some behavior, stop_flag := False,
                          behavior_thread := Some behavior, thread_alive := True\<rparr>))
      | None \<Rightarrow>
          (True, m\<lparr>current_behavior := Some behavior, stop_flag := False,
                    behavior_thread := Some behavior, thread_alive := True\<rparr>))"

text \<open>The \<open>finally\<close> block of \<open>_run_behavior\<close>, run by the worker when it ends.\<close>

definition run_behavior_finally :: "BehaviorManager \<Rightarrow> Behavior \<Rightarrow> BehaviorManager" where
  "run_behavior_finally m behavior =
     (if current_behavior m = Some behavior
      then m\<lparr>current_behavior := None, behaviors_executed := behaviors_executed m + 1,
              thread_alive := False\<rparr>
      else m\<lparr>thread_alive := thread_alive m \<and> behavior_thread m \<noteq> Some behavior\<rparr>)"

definition is_executing :: "BehaviorManager \<Rightarrow> bool" where
  "is_executing m = (current_behavior m \<noteq> None)"

definition action :: "real \<Rightarrow> real \<Rightarrow> real \<Rightarrow> real \<Rightarrow> BehaviorAction" where
  "action r p w d =
     \<lparr>roll = r, pitch = p, yaw = w, pos_x = 0, pos_y = 0, pos_z = 0, duration = d, blocking = True\<rparr>"

definition greeting_wave :: Behavior where
  "greeting_wave =
     \<lparr>name = ''greeting_wave'',
      actions = [action 0 0 0 (3/10), action 15 (-5) 0 (3/10),
                 action (-15) (-5) 0 (3/10), action 0 0 0 (3/10)],
      interruptible = False, priority = 8\<rparr>"

section \<open>Preemption rule\<close>

text \<open>
  C1. For every call of \<open>execute_behavior\<close>: with no active behavior it returns True and
  the new behavior becomes the active one; with an active non-interruptible behavior it
  returns False whatever the incoming priority; with an active interruptible behavior it
  returns True exactly when the incoming priority is strictly greater than the active
  one's. On every False return the manager is unchanged, so the active behavior stays.
\<close>

theorem execute_behavior_preemption:
  "(current_behavior m = None \<longrightarrow>
      fst (execute_behavior m b) \<and> current_behavior (snd (execute_behavior m b)) = Some b) \<and>
   (\<forall>cur. current_behavior m = Some cur \<and> \<not> interruptible cur \<longrightarrow>
      \<not> fst (execute_behavior m b) \<and> snd (execute_behavior m b) = m) \<and>
   (\<forall>cur. current_behavior m = Some cur \<and> interruptible cur \<longrightarrow>
      (fst (execute_behavior m b) \<longleftrightarrow> priority cur < priority b) \<and>
      (fst (execute_behavior m b) \<longrightarrow> current_behavior (snd (execute_behavior m b)) = Some b)) \<and>
   (\<not> fst (execute_behavior m b) \<longrightarrow>
      snd (execute_behavior m b) = m \<and> current_behavior m \<noteq> None)"
  by (auto simp: execute_behavior_def Let_def split: option.splits)

text \<open>Scenario C: an interruptible behavior of priority 2 is active.\<close>

definition idle_look :: Behavior where
  "idle_look = \<lparr>name = ''idle_look'', actions = [action 0 0 20 1], interruptible = True, priority = 2\<rparr>"

definition with_priority :: "int \<Rightarrow> Behavior" where
  "with_priority p = \<lparr>name = ''incoming'', actions = [action 0 5 0 (1/2)], interruptible = True, priority = p\<rparr>"

definition running :: "Behavior \<Rightarrow> BehaviorManager" where
  "running b = snd (execute_behavior new_BehaviorManager b)"

theorem execute_behavior_preemption_witness:
  "(current_behavior new_BehaviorManager = None \<and>
      fst (execute_behavior new_BehaviorManager idle_look) \<and>
      current_behavior (running idle_look) = Some idle_look) \<and>
   (current_behavior (running greeting_wave) = Some greeting_wave \<and> \<not> interruptible greeting_wave \<and>
      \<not> fst (execute_behavior (running greeting_wave) (with_priority 10)) \<and>
      snd (execute_behavior (running greeting_wave) (with_priority 10)) = running greeting_wave) \<and>
   (current_behavior (running idle_look) = Some idle_look \<and> interruptible idle_look \<and>
      \<not> fst (execute_behavior (running idle_look) (with_priority 2)) \<and>
      snd (execute_behavior (running idle_look) (with_priority 2)) = running idle_look \<and>
      fst (execute_behavior (running idle_look) (with_priority 5)) \<and>
      current_behavior (snd (execute_behavior (running idle_look) (with_priority 5))) = Some (with_priority 5))"
proof -
  have none: "current_behavior new_BehaviorManager = None"
    by (simp add: new_BehaviorManager_def)
  have wave: "current_behavior (running greeting_wave) = Some greeting_wave \<and> \<not> interruptible greeting_wave"
    by (simp add: running_def execute_behavior_def new_BehaviorManager_def greeting_wave_def)
  have idle: "current_behavior (running idle_look) = Some idle_look \<and> interruptible idle_look"
    by (simp add: running_def execute_behavior_def new_BehaviorManager_def idle_look_def)
  have p2: "\<not> priority idle_look < priority (with_priority 2)"
    by (simp add: idle_look_def with_priority_def)
  have p5: "priority idle_look < priority (with_priority 5)"
    by (simp add: idle_look_def with_priority_def)
  show ?thesis
    using none wave idle p2 p5
      execute_behavior_preemption [of new_BehaviorManager idle_look]
      execute_behavior_preemption [of "running greeting_wave" "with_priority 10"]
      execute_behavior_preemption [of "running idle_look" "with_priority 2"]
      execute_behavior_preemption [of "running idle_look" "with_priority 5"]
    by (simp add: running_def)
qed


section \<open>Event tracker (src/events/event_system.py)\<close>

datatype EventType = PERSON_RECOGNIZED | PERSON_UNKNOWN | PERSON_DEPARTED | NO_FACES

type_synonym bbox = "int \<times> int \<times> int \<times> int"

text \<open>One element of \<open>results\<close>: \<open>(name, confidence, bbox)\<close>.\<close>

type_synonym detection = "string \<times> real \<times> bbox"

record RecognitionEvent =
  event_type :: EventType
  timestamp :: real
  person_name :: string
  confidence :: real
  bbox :: "bbox option"
  frame_number :: int

text \<open>
  \<open>PersonState\<close> and \<open>EventManager\<close> share the field name \<open>departed_frames\<close> (the
  absence counter of a person, the departure threshold of the manager), as in the
  source; the two are always written with their record's name in front.
\<close>

record PersonState =
  name :: string
  consecutive_frames :: int
  departed_frames :: int
  last_confidence :: real
  last_bbox :: "bbox option"
  event_triggered :: bool

record AccuracyMetrics =
  true_positives :: int
  false_positives :: int
  true_negatives :: int
  false_negatives :: int
  unknown_count :: int
  recognized_count :: int
  total_events :: int

text \<open>
  \<open>current_state\<close> is the dict from names to \<open>PersonState\<close>, kept as an association
  list in insertion order (the order in which Python iterates it). \<open>callbacks\<close> holds
  the registered callback ids per event type; what a callback does is outside the
  tracker, which catches whatever it raises, so \<open>_trigger_callbacks\<close> leaves the tracker
  unchanged and is not a step of the model.
\<close>

record EventManager =
  debounce_frames :: int
  departed_frames :: int
  max_history :: nat
  event_history :: "RecognitionEvent list"
  callbacks :: "(EventType \<times> nat) list"
  current_state :: "(string \<times> PersonState) list"
  frame_count :: int
  next_callback_id :: nat
  accuracy_metrics :: AccuracyMetrics

definition zero_metrics :: AccuracyMetrics where
  "zero_metrics =
     \<lparr>true_positives = 0, false_positives = 0, true_negatives = 0, false_negatives = 0,
      unknown_count = 0, recognized_count = 0, total_events = 0\<rparr>"

text \<open>Python's \<open>int(x)\<close> on a float truncates toward zero.\<close>

definition py_int :: "real \<Rightarrow> int" where
  "py_int v = (if 0 \<le> v then \<lfloor>v\<rfloor> else \<lceil>v\<rceil>)"

text \<open>\<open>max(1, int(seconds * fps))\<close>, the conversion of \<open>__init__\<close>.\<close>

definition seconds_to_frames :: "real \<Rightarrow> real \<Rightarrow> int" where
  "seconds_to_frames seconds fps = max 1 (py_int (seconds * fps))"

text \<open>
  \<open>EventManager(debounce_frames=d, departed_frames=t, max_history=h)\<close>: frame counts
  that are passed are stored as they are.
\<close>

definition new_EventManager :: "int \<Rightarrow> int \<Rightarrow> nat \<Rightarrow> EventManager" where
  "new_EventManager d t h =
     \<lparr>debounce_frames = d, departed_frames = t, max_history = h, event_history = [],
      callbacks = [], current_state = [], frame_count = 0, next_callback_id = 0,
      accuracy_metrics = zero_metrics\<rparr>"

text \<open>\<open>_add_to_history\<close>: append to a deque of \<open>maxlen = max_history\<close>.\<close>

definition add_to_history :: "EventManager \<Rightarrow> RecognitionEvent \<Rightarrow> EventManager" where
  "add_to_history m event =
     (let h = event_history m @ [event]
      in m\<lparr>event_history := drop (length h - max_history m) h\<rparr>)"

definition last_event_was_not_no_faces :: "EventManager \<Rightarrow> bool" where
  "last_event_was_not_no_faces m =
     (if event_history m = [] then True
      else event_type (last (event_history m)) \<noteq> NO_FACES)"

definition update_accuracy_metrics :: "EventManager \<Rightarrow> EventType \<Rightarrow> EventManager" where
  "update_accuracy_metrics m ty =
     (let a = accuracy_metrics m;
          a1 = a\<lparr>total_events := total_events a + 1\<rparr>;
          a2 = (if ty = PERSON_RECOGNIZED
                then a1\<lparr>recognized_count := recognized_count a1 + 1,
                        true_positives := true_positives a1 + 1\<rparr>
                else if ty = PERSON_UNKNOWN
                then a1\<lparr>unknown_count := unknown_count a1 + 1,
                        true_negatives := true_negatives a1 + 1\<rparr>
                else a1)
      in m\<lparr>accuracy_metrics := a2\<rparr>)"

definition add_callback :: "EventManager \<Rightarrow> EventType \<Rightarrow> nat \<times> EventManager" where
  "add_callback m ty =
     (next_callback_id m,
      m\<lparr>next_callback_id := next_callback_id m + 1,
        callbacks := callbacks m @ [(ty, next_callback_id m)]\<rparr>)"

definition reset :: "EventManager \<Rightarrow> EventManager" where
  "reset m = m\<lparr>event_history := [], current_state := [], frame_count := 0,
               accuracy_metrics := zero_metrics\<rparr>"

text \<open>
  The body of the first loop of \<open>process_recognition_results\<close> for one detection. The
  accumulator is the manager and the local list \<open>events\<close>; \<open>fn\<close> is the frame number
  and \<open>now\<close> the reading of \<open>time.time()\<close>.
\<close>

definition process_detected ::
  "int \<Rightarrow> real \<Rightarrow> detection \<Rightarrow> EventManager \<times> RecognitionEvent list
     \<Rightarrow> EventManager \<times> RecognitionEvent list" where
  "process_detected fn now det acc =
     (case (det, acc) of ((nm, conf, bb), (m, events)) \<Rightarrow>
        (case map_of (current_state m) nm of
           Some state \<Rightarrow>
             (let state1 = state\<lparr>consecutive_frames := consecutive_frames state + 1,
                                 PersonState.departed_frames := 0,
                                 last_confidence := conf, last_bbox := Some bb\<rparr>
              in if consecutive_frames state1 = debounce_frames m \<and> \<not> event_triggered state1
                 then
                   (let ty = (if nm = ''unknown'' then PERSON_UNKNOWN else PERSON_RECOGNIZED);
                        event = \<lparr>event_type = ty, timestamp = now, person_name = nm,
                                 confidence = conf, bbox = Some bb, frame_number = fn\<rparr>;
                        state2 = state1\<lparr>event_triggered := True\<rparr>;
                        m1 = m\<lparr>current_state := AList.update nm state2 (current_state m)\<rparr>;
                        m2 = add_to_history m1 event
                    in (update_accuracy_metrics m2 ty, events @ [event]))
                 else (m\<lparr>current_state := AList.update nm state1 (current_state m)\<rparr>, events))
         | None \<Rightarrow>
             (m\<lparr>current_state :=
                  AList.update nm
                    \<lparr>PersonState.name = nm, consecutive_frames = 1,
                     PersonState.departed_frames = 0, last_confidence = conf,
                     last_bbox = Some bb, event_triggered = False\<rparr>
                    (current_state m)\<rparr>,
              events)))"

definition departed_event :: "string \<Rightarrow> int \<Rightarrow> real \<Rightarrow> RecognitionEvent" where
  "departed_event nm fn now =
     \<lparr>event_type = PERSON_DEPARTED, timestamp = now, person_name = nm,
      confidence = 0, bbox = None, frame_number = fn\<rparr>"

text \<open>
  The second loop, over \<open>self.current_state.items()\<close>: the entries with their states
  updated in place, the events appended, and \<open>departed_names\<close>, all in dict order.
  \<open>thr\<close> is \<open>self.departed_frames\<close>.
\<close>

fun check_departed ::
  "int \<Rightarrow> string set \<Rightarrow> int \<Rightarrow> real \<Rightarrow> (string \<times> PersonState) list
     \<Rightarrow> (string \<times> PersonState) list \<times> RecognitionEvent list \<times> string list" where
  "check_departed thr current_names fn now [] = ([], [], [])"
| "check_departed thr current_names fn now ((nm, state) # rest) =
     (case check_departed thr current_names fn now rest of (rest1, events, departed_names) \<Rightarrow>
        if nm \<notin> current_names then
          (let state1 = state\<lparr>PersonState.departed_frames := PersonState.departed_frames state + 1,
                              consecutive_frames := 0\<rparr>
           in if PersonState.departed_frames state1 = thr \<and> event_triggered state1
              then ((nm, state1) # rest1, departed_event nm fn now # events, nm # departed_names)
              else ((nm, state1) # rest1, events, departed_names))
        else ((nm, state) # rest1, events, departed_names))"

definition no_faces_event :: "int \<Rightarrow> real \<Rightarrow> RecognitionEvent" where
  "no_faces_event fn now =
     \<lparr>event_type = NO_FACES, timestamp = now, person_name = [],
      confidence = 0, bbox = None, frame_number = fn\<rparr>"

text \<open>
  \<open>process_recognition_results(results, frame_number)\<close>, returning the list of events
  and the manager afterwards. \<open>frame_no\<close> is the argument \<open>frame_number\<close>, \<open>None\<close> when
  the call leaves it out.
\<close>

definition process_recognition_results ::
  "EventManager \<Rightarrow> detection list \<Rightarrow> int option \<Rightarrow> real
     \<Rightarrow> RecognitionEvent list \<times> EventManager" where
  "process_recognition_results m results frame_no now =
     (let m0 = (case frame_no of None \<Rightarrow> m\<lparr>frame_count := frame_count m + 1\<rparr> | Some n \<Rightarrow> m);
          fn = (case frame_no of None \<Rightarrow> frame_count m0 | Some n \<Rightarrow> n);
          (m1, events1) = fold (process_detected fn now) results (m0, []);
          current_names = set (map fst results);
          (states, events2, departed_names) =
             check_departed (EventManager.departed_frames m1) current_names fn now (current_state m1);
          m2 = fold (\<lambda>e ma. add_to_history ma e) events2 (m1\<lparr>current_state := states\<rparr>);
          m3 = m2\<lparr>current_state := fold AList.delete departed_names (current_state m2)\<rparr>
      in if results = [] \<and> current_state m3 = [] \<and>
            (frame_count m3 = 1 \<or> last_event_was_not_no_faces m3)
         then (events1 @ events2 @ [no_faces_event fn now], add_to_history m3 (no_faces_event fn now))
         else (events1 @ events2, m3))"

text \<open>
  A sequence of submitted cycles: each is the batch, the frame number argument and the
  clock. \<open>run_cycles\<close> lists, for every call in turn, the events it returned and the
  manager after it.
\<close>

type_synonym cycle = "detection list \<times> int option \<times> real"

fun run_cycles :: "EventManager \<Rightarrow> cycle list \<Rightarrow> (RecognitionEvent list \<times> EventManager) list" where
  "run_cycles m [] = []"
| "run_cycles m ((results, frame_no, now) # rest) =
     process_recognition_results m results frame_no now #
     run_cycles (snd (process_recognition_results m results frame_no now)) rest"

text \<open>The announce events (RECOGNIZED or UNKNOWN) and the DEPARTED events of one name.\<close>

definition announce_events :: "string \<Rightarrow> RecognitionEvent list \<Rightarrow> RecognitionEvent list" where
  "announce_events nm events =
     filter (\<lambda>e. person_name e = nm \<and>
                 (event_type e = PERSON_RECOGNIZED \<or> event_type e = PERSON_UNKNOWN)) events"

definition departed_events :: "string \<Rightarrow> RecognitionEvent list \<Rightarrow> RecognitionEvent list" where
  "departed_events nm events =
     filter (\<lambda>e. person_name e = nm \<and> event_type e = PERSON_DEPARTED) events"

definition tracked :: "EventManager \<Rightarrow> string \<Rightarrow> PersonState option" where
  "tracked m nm = map_of (current_state m) nm"

section \<open>One cycle of the tracker, seen from one name\<close>

text \<open>How often a name is listed in a batch.\<close>

definition occurrences :: "string \<Rightarrow> detection list \<Rightarrow> int" where
  "occurrences nm results = int (length (filter (\<lambda>det. fst det = nm) results))"

lemma current_state_add_to_history [simp]:
  "current_state (add_to_history m e) = current_state m"
  "debounce_frames (add_to_history m e) = debounce_frames m"
  "EventManager.departed_frames (add_to_history m e) = EventManager.departed_frames m"
  "frame_count (add_to_history m e) = frame_count m"
  by (simp_all add: add_to_history_def Let_def)

lemma current_state_update_accuracy_metrics [simp]:
  "current_state (update_accuracy_metrics m ty) = current_state m"
  "debounce_frames (update_accuracy_metrics m ty) = debounce_frames m"
  "EventManager.departed_frames (update_accuracy_metrics m ty) = EventManager.departed_frames m"
  "frame_count (update_accuracy_metrics m ty) = frame_count m"
  by (simp_all add: update_accuracy_metrics_def Let_def)

lemma process_detected_params:
  "debounce_frames (fst (process_detected fn now det acc)) = debounce_frames (fst acc)"
  "EventManager.departed_frames (fst (process_detected fn now det acc)) = EventManager.departed_frames (fst acc)"
  "frame_count (fst (process_detected fn now det acc)) = frame_count (fst acc)"
  by (auto simp: process_detected_def Let_def split: prod.splits option.splits)

lemma fold_process_detected_params:
  "debounce_frames (fst (fold (process_detected fn now) results acc)) = debounce_frames (fst acc)"
  "EventManager.departed_frames (fst (fold (process_detected fn now) results acc)) = EventManager.departed_frames (fst acc)"
  "frame_count (fst (fold (process_detected fn now) results acc)) = frame_count (fst acc)"
  by (induction results arbitrary: acc; simp add: process_detected_params)+

lemma process_detected_other:
  "fst det \<noteq> nm \<Longrightarrow> tracked (fst (process_detected fn now det acc)) nm = tracked (fst acc) nm"
  "fst det \<noteq> nm \<Longrightarrow> announce_events nm (snd (process_detected fn now det acc)) = announce_events nm (snd acc)"
  by (auto simp: process_detected_def tracked_def announce_events_def Let_def update_conv'
      split: prod.splits option.splits)

lemma process_detected_tracked:
  assumes "tracked m nm = Some s"
  shows "\<exists>s'. tracked (fst (process_detected fn now (nm, conf, bb) (m, evs))) nm = Some s' \<and>
     consecutive_frames s' = consecutive_frames s + 1 \<and>
     PersonState.departed_frames s' = 0 \<and>
     (event_triggered s' \<longleftrightarrow> event_triggered s \<or> consecutive_frames s + 1 = debounce_frames m) \<and>
     length (announce_events nm (snd (process_detected fn now (nm, conf, bb) (m, evs)))) =
       length (announce_events nm evs) +
       (if \<not> event_triggered s \<and> consecutive_frames s + 1 = debounce_frames m then 1 else 0)"
  using assms
  by (auto simp: process_detected_def tracked_def announce_events_def Let_def update_conv')

lemma process_detected_untracked:
  assumes "tracked m nm = None"
  shows "\<exists>s'. tracked (fst (process_detected fn now (nm, conf, bb) (m, evs))) nm = Some s' \<and>
     consecutive_frames s' = 1 \<and> PersonState.departed_frames s' = 0 \<and> \<not> event_triggered s' \<and>
     snd (process_detected fn now (nm, conf, bb) (m, evs)) = evs"
  using assms
  by (auto simp: process_detected_def tracked_def Let_def update_conv')


lemma occurrences_Nil [simp]: "occurrences nm [] = 0"
  by (simp add: occurrences_def)

lemma occurrences_Cons [simp]:
  "occurrences nm (det # results) = (if fst det = nm then 1 else 0) + occurrences nm results"
  by (simp add: occurrences_def)

lemma occurrences_nonneg: "0 \<le> occurrences nm results"
  by (simp add: occurrences_def)

lemma occurrences_pos_iff: "0 < occurrences nm results \<longleftrightarrow> nm \<in> fst ` set results"
  using occurrences_nonneg [of nm] by (induction results) (auto simp: add_pos_nonneg)

lemma loop1_tracked:
  assumes "tracked m nm = Some s"
  shows "\<exists>s'. tracked (fst (fold (process_detected fn now) results (m, evs))) nm = Some s' \<and>
     consecutive_frames s' = consecutive_frames s + occurrences nm results \<and>
     (0 < occurrences nm results \<longrightarrow> PersonState.departed_frames s' = 0) \<and>
     (occurrences nm results = 0 \<longrightarrow> s' = s) \<and>
     (event_triggered s' \<longleftrightarrow> event_triggered s \<or>
        (consecutive_frames s < debounce_frames m \<and>
         debounce_frames m \<le> consecutive_frames s + occurrences nm results)) \<and>
     length (announce_events nm (snd (fold (process_detected fn now) results (m, evs)))) =
       length (announce_events nm evs) +
       (if \<not> event_triggered s \<and> consecutive_frames s < debounce_frames m \<and>
           debounce_frames m \<le> consecutive_frames s + occurrences nm results then 1 else 0)"
  using assms
proof (induction results arbitrary: m evs s)
  case Nil
  then show ?case by auto
next
  case (Cons det results)
  obtain nm' conf bb where det: "det = (nm', conf, bb)" by (cases det) auto
  obtain m1 evs1 where step: "process_detected fn now det (m, evs) = (m1, evs1)"
    by (cases "process_detected fn now det (m, evs)") auto
  have dd: "debounce_frames m1 = debounce_frames m"
    using process_detected_params(1) [of fn now det "(m, evs)"] step by simp
  have k0: "0 \<le> occurrences nm results" by (rule occurrences_nonneg)
  show ?case
  proof (cases "nm' = nm")
    case False
    have t1: "tracked m1 nm = Some s"
      using process_detected_other(1) [of det nm fn now "(m, evs)"] False det step Cons.prems by simp
    have a1: "announce_events nm evs1 = announce_events nm evs"
      using process_detected_other(2) [of det nm fn now "(m, evs)"] False det step by simp
    from Cons.IH [OF t1, of evs1] show ?thesis
      using False det step dd a1 by simp
  next
    case True
    from process_detected_tracked [OF Cons.prems, of fn now conf bb evs]
    obtain s1 where s1: "tracked m1 nm = Some s1"
      "consecutive_frames s1 = consecutive_frames s + 1"
      "PersonState.departed_frames s1 = 0"
      "event_triggered s1 \<longleftrightarrow> event_triggered s \<or> consecutive_frames s + 1 = debounce_frames m"
      "length (announce_events nm evs1) = length (announce_events nm evs) +
         (if \<not> event_triggered s \<and> consecutive_frames s + 1 = debounce_frames m then 1 else 0)"
      using True det step by auto
    from Cons.IH [OF s1(1), of evs1]
    obtain s' where s': "tracked (fst (fold (process_detected fn now) results (m1, evs1))) nm = Some s'"
      "consecutive_frames s' = consecutive_frames s1 + occurrences nm results"
      "0 < occurrences nm results \<longrightarrow> PersonState.departed_frames s' = 0"
      "occurrences nm results = 0 \<longrightarrow> s' = s1"
      "event_triggered s' \<longleftrightarrow> event_triggered s1 \<or>
        (consecutive_frames s1 < debounce_frames m1 \<and>
         debounce_frames m1 \<le> consecutive_frames s1 + occurrences nm results)"
      "length (announce_events nm (snd (fold (process_detected fn now) results (m1, evs1)))) =
       length (announce_events nm evs1) +
       (if \<not> event_triggered s1 \<and> consecutive_frames s1 < debounce_frames m1 \<and>
           debounce_frames m1 \<le> consecutive_frames s1 + occurrences nm results then 1 else 0)"
      by blast
    have dep: "PersonState.departed_frames s' = 0"
      using s'(3,4) s1(3) k0 by (cases "occurrences nm results = 0") auto
    have trig: "event_triggered s' \<longleftrightarrow> event_triggered s \<or>
        (consecutive_frames s < debounce_frames m \<and>
         debounce_frames m \<le> consecutive_frames s + (1 + occurrences nm results))"
      using s'(5) s1(2,4) dd k0 by auto
    have len: "length (announce_events nm (snd (fold (process_detected fn now) results (m1, evs1)))) =
       length (announce_events nm evs) +
       (if \<not> event_triggered s \<and> consecutive_frames s < debounce_frames m \<and>
           debounce_frames m \<le> consecutive_frames s + (1 + occurrences nm results) then 1 else 0)"
      using s'(6) s1(2,4,5) dd k0 by auto
    show ?thesis
      using True det step s'(1,2) s1(2) dep trig len k0 by simp
  qed
qed


lemma loop1_untracked:
  assumes "tracked m nm = None"
  shows "(occurrences nm results = 0 \<longrightarrow>
            tracked (fst (fold (process_detected fn now) results (m, evs))) nm = None \<and>
            announce_events nm (snd (fold (process_detected fn now) results (m, evs))) =
              announce_events nm evs) \<and>
         (0 < occurrences nm results \<longrightarrow>
            (\<exists>s'. tracked (fst (fold (process_detected fn now) results (m, evs))) nm = Some s' \<and>
               consecutive_frames s' = occurrences nm results \<and>
               PersonState.departed_frames s' = 0 \<and>
               (event_triggered s' \<longleftrightarrow>
                  1 < debounce_frames m \<and> debounce_frames m \<le> occurrences nm results) \<and>
               length (announce_events nm (snd (fold (process_detected fn now) results (m, evs)))) =
                 length (announce_events nm evs) +
                 (if 1 < debounce_frames m \<and> debounce_frames m \<le> occurrences nm results
                  then 1 else 0)))"
  using assms
proof (induction results arbitrary: m evs)
  case Nil
  then show ?case by simp
next
  case (Cons det results)
  obtain nm' conf bb where det: "det = (nm', conf, bb)" by (cases det) auto
  obtain m1 evs1 where step: "process_detected fn now det (m, evs) = (m1, evs1)"
    by (cases "process_detected fn now det (m, evs)") auto
  have dd: "debounce_frames m1 = debounce_frames m"
    using process_detected_params(1) [of fn now det "(m, evs)"] step by simp
  have k0: "0 \<le> occurrences nm results" by (rule occurrences_nonneg)
  show ?case
  proof (cases "nm' = nm")
    case False
    have t1: "tracked m1 nm = None"
      using process_detected_other(1) [of det nm fn now "(m, evs)"] False det step Cons.prems by simp
    have a1: "announce_events nm evs1 = announce_events nm evs"
      using process_detected_other(2) [of det nm fn now "(m, evs)"] False det step by simp
    from Cons.IH [OF t1, of evs1] show ?thesis
      using False det step dd a1 by simp
  next
    case True
    from process_detected_untracked [OF Cons.prems, of fn now conf bb evs]
    obtain s1 where s1: "tracked m1 nm = Some s1" "consecutive_frames s1 = 1"
      "PersonState.departed_frames s1 = 0" "\<not> event_triggered s1" "evs1 = evs"
      using True det step by auto
    from loop1_tracked [OF s1(1), of fn now results evs1]
    obtain s' where s': "tracked (fst (fold (process_detected fn now) results (m1, evs1))) nm = Some s'"
      "consecutive_frames s' = consecutive_frames s1 + occurrences nm results"
      "0 < occurrences nm results \<longrightarrow> PersonState.departed_frames s' = 0"
      "occurrences nm results = 0 \<longrightarrow> s' = s1"
      "event_triggered s' \<longleftrightarrow> event_triggered s1 \<or>
        (consecutive_frames s1 < debounce_frames m1 \<and>
         debounce_frames m1 \<le> consecutive_frames s1 + occurrences nm results)"
      "length (announce_events nm (snd (fold (process_detected fn now) results (m1, evs1)))) =
       length (announce_events nm evs1) +
       (if \<not> event_triggered s1 \<and> consecutive_frames s1 < debounce_frames m1 \<and>
           debounce_frames m1 \<le> consecutive_frames s1 + occurrences nm results then 1 else 0)"
      by blast
    have dep: "PersonState.departed_frames s' = 0"
      using s'(3,4) s1(3) k0 by (cases "occurrences nm results = 0") auto
    have pos: "0 < 1 + occurrences nm results" using k0 by simp
    show ?thesis
      using True det step s'(1,2,5,6) s1(2,4,5) dep dd pos by simp
  qed
qed

lemma loop1_departed:
  "departed_events nm (snd (fold (process_detected fn now) results acc)) = departed_events nm (snd acc)"
proof (induction results arbitrary: acc)
  case Nil
  show ?case by simp
next
  case (Cons det results)
  have "departed_events nm (snd (process_detected fn now det acc)) = departed_events nm (snd acc)"
    by (auto simp: process_detected_def departed_events_def Let_def split: prod.splits option.splits)
  with Cons.IH [of "process_detected fn now det acc"] show ?case by simp
qed

lemma check_departed_Cons:
  "fst (check_departed thr cur fn now ((n, s) # rest)) =
     (n, if n \<notin> cur
         then s\<lparr>PersonState.departed_frames := PersonState.departed_frames s + 1, consecutive_frames := 0\<rparr>
         else s) # fst (check_departed thr cur fn now rest)"
  "fst (snd (check_departed thr cur fn now ((n, s) # rest))) =
     (if n \<notin> cur \<and> PersonState.departed_frames s + 1 = thr \<and> event_triggered s
      then [departed_event n fn now] else []) @ fst (snd (check_departed thr cur fn now rest))"
  "snd (snd (check_departed thr cur fn now ((n, s) # rest))) =
     (if n \<notin> cur \<and> PersonState.departed_frames s + 1 = thr \<and> event_triggered s
      then [n] else []) @ snd (snd (check_departed thr cur fn now rest))"
  by (simp_all add: Let_def split: prod.splits)

lemma check_departed_Nil:
  "fst (check_departed thr cur fn now []) = []"
  "fst (snd (check_departed thr cur fn now [])) = []"
  "snd (snd (check_departed thr cur fn now [])) = []"
  by simp_all

lemma check_departed_keys:
  "map fst (fst (check_departed thr cur fn now entries)) = map fst entries"
  by (induction entries) (auto simp only: check_departed_Cons check_departed_Nil list.map fst_conv)

lemma check_departed_events:
  "fst (snd (check_departed thr cur fn now entries)) =
     map (\<lambda>n. departed_event n fn now) (snd (snd (check_departed thr cur fn now entries)))"
  by (induction entries) (auto simp del: check_departed.simps simp add: check_departed_Cons check_departed_Nil)

lemma check_departed_names:
  "n \<in> set (snd (snd (check_departed thr cur fn now entries))) \<longleftrightarrow>
     (\<exists>s. (n, s) \<in> set entries \<and> n \<notin> cur \<and> PersonState.departed_frames s + 1 = thr \<and>
            event_triggered s)"
  by (induction entries) (auto simp del: check_departed.simps simp add: check_departed_Cons check_departed_Nil)

lemma check_departed_names_distinct:
  "distinct (map fst entries) \<Longrightarrow> distinct (snd (snd (check_departed thr cur fn now entries)))"
  by (induction entries)
     (force simp del: check_departed.simps
            simp add: check_departed_Cons check_departed_Nil check_departed_names)+

lemma check_departed_lookup:
  "map_of (fst (check_departed thr cur fn now entries)) nm =
     map_option (\<lambda>s. if nm \<notin> cur
        then s\<lparr>PersonState.departed_frames := PersonState.departed_frames s + 1, consecutive_frames := 0\<rparr>
        else s) (map_of entries nm)"
  by (induction entries) (auto simp del: check_departed.simps simp add: check_departed_Cons check_departed_Nil)

lemma fold_add_to_history [simp]:
  "current_state (fold (\<lambda>e ma. add_to_history ma e) evs m) = current_state m"
  "debounce_frames (fold (\<lambda>e ma. add_to_history ma e) evs m) = debounce_frames m"
  "EventManager.departed_frames (fold (\<lambda>e ma. add_to_history ma e) evs m) = EventManager.departed_frames m"
  "frame_count (fold (\<lambda>e ma. add_to_history ma e) evs m) = frame_count m"
  by (induction evs arbitrary: m; simp)+

lemma map_of_fold_delete:
  "map_of (fold AList.delete ns al) nm = (if nm \<in> set ns then None else map_of al nm)"
  by (induction ns arbitrary: al) (auto simp: delete_conv')

lemma distinct_fold_delete:
  "distinct (map fst al) \<Longrightarrow> distinct (map fst (fold AList.delete ns al))"
  by (induction ns arbitrary: al) (auto simp: distinct_delete)


text \<open>
  The stages of \<open>process_recognition_results\<close>, named for the proofs: the manager once
  the frame counter is settled, the frame number used, the result of the first loop,
  what the second loop does to the state of a name that is not listed, when it lets the
  name depart, and the result of the second loop.
\<close>

definition begin_cycle :: "EventManager \<Rightarrow> int option \<Rightarrow> EventManager" where
  "begin_cycle m frame_no =
     (case frame_no of None \<Rightarrow> m\<lparr>frame_count := frame_count m + 1\<rparr> | Some n \<Rightarrow> m)"

definition frame_of :: "EventManager \<Rightarrow> int option \<Rightarrow> int" where
  "frame_of m frame_no =
     (case frame_no of None \<Rightarrow> frame_count (begin_cycle m frame_no) | Some n \<Rightarrow> n)"

definition detect ::
  "EventManager \<Rightarrow> detection list \<Rightarrow> int option \<Rightarrow> real \<Rightarrow> EventManager \<times> RecognitionEvent list" where
  "detect m results frame_no now =
     fold (process_detected (frame_of m frame_no) now) results (begin_cycle m frame_no, [])"

definition absent_state :: "PersonState \<Rightarrow> PersonState" where
  "absent_state s =
     s\<lparr>PersonState.departed_frames := PersonState.departed_frames s + 1, consecutive_frames := 0\<rparr>"

definition departs :: "int \<Rightarrow> PersonState \<Rightarrow> bool" where
  "departs thr s \<longleftrightarrow> PersonState.departed_frames s + 1 = thr \<and> event_triggered s"

lemma begin_cycle_simps [simp]:
  "current_state (begin_cycle m frame_no) = current_state m"
  "tracked (begin_cycle m frame_no) nm = tracked m nm"
  "debounce_frames (begin_cycle m frame_no) = debounce_frames m"
  "EventManager.departed_frames (begin_cycle m frame_no) = EventManager.departed_frames m"
  by (simp_all add: begin_cycle_def tracked_def split: option.splits)

lemma detect_params [simp]:
  "debounce_frames (fst (detect m results frame_no now)) = debounce_frames m"
  "EventManager.departed_frames (fst (detect m results frame_no now)) = EventManager.departed_frames m"
  by (simp_all add: detect_def fold_process_detected_params)

lemma process_detected_distinct:
  "distinct (map fst (current_state (fst acc))) \<Longrightarrow>
   distinct (map fst (current_state (fst (process_detected fn now det acc))))"
  by (auto simp: process_detected_def Let_def distinct_update split: prod.splits option.splits)

lemma detect_distinct:
  "distinct (map fst (current_state m)) \<Longrightarrow>
   distinct (map fst (current_state (fst (detect m results frame_no now))))"
proof -
  have "distinct (map fst (current_state (fst acc))) \<Longrightarrow>
        distinct (map fst (current_state (fst (fold (process_detected fn now) results acc))))"
    for fn acc
    by (induction results arbitrary: acc) (simp_all add: process_detected_distinct)
  from this [of "(begin_cycle m frame_no, [])"] show "distinct (map fst (current_state m)) \<Longrightarrow> ?thesis"
    by (simp add: detect_def)
qed

lemma process_params [simp]:
  "debounce_frames (snd (process_recognition_results m results frame_no now)) = debounce_frames m"
  "EventManager.departed_frames (snd (process_recognition_results m results frame_no now)) =
     EventManager.departed_frames m"
  by (simp_all add: process_recognition_results_def Let_def case_prod_beta
        fold_process_detected_params split: option.splits)

lemma check_departed_names_map_of:
  assumes "distinct (map fst entries)"
  shows "n \<in> set (snd (snd (check_departed thr cur fn now entries))) \<longleftrightarrow>
     (case map_of entries n of None \<Rightarrow> False | Some s \<Rightarrow> n \<notin> cur \<and> departs thr s)"
proof -
  have "(n, s) \<in> set entries \<longleftrightarrow> map_of entries n = Some s" for s
    using assms by simp
  then show ?thesis
    unfolding check_departed_names departs_def by (auto split: option.splits)
qed

lemma process_unfold:
  "process_recognition_results m results frame_no now =
     (let m0 = begin_cycle m frame_no;
          fn = frame_of m frame_no;
          d = fold (process_detected fn now) results (m0, []);
          cd = check_departed (EventManager.departed_frames (fst d)) (set (map fst results))
                 fn now (current_state (fst d));
          m2 = fold (\<lambda>e ma. add_to_history ma e) (fst (snd cd)) ((fst d)\<lparr>current_state := fst cd\<rparr>);
          m3 = m2\<lparr>current_state := fold AList.delete (snd (snd cd)) (current_state m2)\<rparr>
      in if results = [] \<and> current_state m3 = [] \<and>
            (frame_count m3 = 1 \<or> last_event_was_not_no_faces m3)
         then (snd d @ fst (snd cd) @ [no_faces_event fn now],
               add_to_history m3 (no_faces_event fn now))
         else (snd d @ fst (snd cd), m3))"
  unfolding process_recognition_results_def begin_cycle_def frame_of_def Let_def case_prod_beta
  by (rule refl)

definition departures ::
  "EventManager \<Rightarrow> detection list \<Rightarrow> int option \<Rightarrow> real
     \<Rightarrow> (string \<times> PersonState) list \<times> RecognitionEvent list \<times> string list" where
  "departures m results frame_no now =
     check_departed (EventManager.departed_frames m) (fst ` set results) (frame_of m frame_no) now
       (current_state (fst (detect m results frame_no now)))"

lemma current_state_process:
  "current_state (snd (process_recognition_results m results frame_no now)) =
     fold AList.delete (snd (snd (departures m results frame_no now)))
       (fst (departures m results frame_no now))"
  by (simp add: process_unfold Let_def departures_def detect_def fold_process_detected_params)

lemma process_events:
  "\<exists>nf. fst (process_recognition_results m results frame_no now) =
     snd (detect m results frame_no now) @
     map (\<lambda>n. departed_event n (frame_of m frame_no) now)
       (snd (snd (departures m results frame_no now))) @ nf \<and>
     (nf = [] \<or> nf = [no_faces_event (frame_of m frame_no) now] \<and> results = [] \<and>
        current_state (snd (process_recognition_results m results frame_no now)) = [])"
proof -
  define m0 where "m0 = begin_cycle m frame_no"
  define fn where "fn = frame_of m frame_no"
  define d where "d = fold (process_detected fn now) results (m0, [])"
  define cd where "cd = check_departed (EventManager.departed_frames (fst d)) (set (map fst results))
                 fn now (current_state (fst d))"
  define m2 where "m2 = fold (\<lambda>e ma. add_to_history ma e) (fst (snd cd)) ((fst d)\<lparr>current_state := fst cd\<rparr>)"
  define m3 where "m3 = m2\<lparr>current_state := fold AList.delete (snd (snd cd)) (current_state m2)\<rparr>"
  define c where "c \<longleftrightarrow> results = [] \<and> current_state m3 = [] \<and>
            (frame_count m3 = 1 \<or> last_event_was_not_no_faces m3)"
  have p: "process_recognition_results m results frame_no now =
     (if c then (snd d @ fst (snd cd) @ [no_faces_event fn now],
               add_to_history m3 (no_faces_event fn now))
         else (snd d @ fst (snd cd), m3))"
    unfolding process_unfold Let_def c_def m3_def m2_def cd_def d_def fn_def m0_def by (rule refl)
  have d: "d = detect m results frame_no now"
    by (simp add: d_def detect_def fn_def m0_def)
  have cd: "cd = departures m results frame_no now"
    by (simp add: cd_def departures_def d fn_def)
  have ev: "fst (snd cd) = map (\<lambda>n. departed_event n fn now) (snd (snd cd))"
    unfolding cd_def by (rule check_departed_events)
  show ?thesis
  proof (cases c)
    case True
    have r: "process_recognition_results m results frame_no now =
        (snd d @ fst (snd cd) @ [no_faces_event fn now], add_to_history m3 (no_faces_event fn now))"
      using True by (simp only: p if_True)
    have e1: "fst (process_recognition_results m results frame_no now) =
        snd (detect m results frame_no now) @
        map (\<lambda>n. departed_event n (frame_of m frame_no) now)
          (snd (snd (departures m results frame_no now))) @
        [no_faces_event (frame_of m frame_no) now]"
      using ev by (simp add: r d cd fn_def)
    have "current_state m3 = []"
      using True by (simp add: c_def)
    then have e2: "current_state (snd (process_recognition_results m results frame_no now)) = []"
      by (simp add: r)
    have e3: "results = []"
      using True by (simp add: c_def)
    show ?thesis
      by (rule exI [of _ "[no_faces_event (frame_of m frame_no) now]"]) (use e1 e2 e3 in blast)
  next
    case False
    then show ?thesis
      using ev by (simp add: p d cd fn_def)
  qed
qed

lemma process_tracked:
  assumes "distinct (map fst (current_state m))"
  shows "tracked (snd (process_recognition_results m results frame_no now)) nm =
     (case tracked (fst (detect m results frame_no now)) nm of
        None \<Rightarrow> None
      | Some s \<Rightarrow>
          if nm \<in> fst ` set results then Some s
          else if departs (EventManager.departed_frames m) s then None
          else Some (absent_state s))"
proof -
  let ?m1 = "fst (detect m results frame_no now)"
  have d1: "distinct (map fst (current_state ?m1))"
    using assms by (rule detect_distinct)
  have unf: "current_state (snd (process_recognition_results m results frame_no now)) =
     (let cd = check_departed (EventManager.departed_frames m) (fst ` set results)
                 (frame_of m frame_no) now (current_state ?m1)
      in fold AList.delete (snd (snd cd)) (fst cd))"
    by (simp add: current_state_process departures_def Let_def)
  show ?thesis
    unfolding tracked_def unf Let_def map_of_fold_delete check_departed_lookup
      check_departed_names_map_of [OF d1]
    by (auto simp: absent_state_def split: option.splits)
qed


lemma announce_events_append [simp]:
  "announce_events nm (xs @ ys) = announce_events nm xs @ announce_events nm ys"
  by (simp add: announce_events_def)

lemma departed_events_append [simp]:
  "departed_events nm (xs @ ys) = departed_events nm xs @ departed_events nm ys"
  by (simp add: departed_events_def)

lemma announce_events_departed [simp]:
  "announce_events nm (map (\<lambda>n. departed_event n fn now) ns) = []"
  by (induction ns) (simp_all add: announce_events_def departed_event_def)

lemma departed_events_departed:
  "distinct ns \<Longrightarrow> departed_events nm (map (\<lambda>n. departed_event n fn now) ns) =
     (if nm \<in> set ns then [departed_event nm fn now] else [])"
  by (induction ns) (auto simp: departed_events_def departed_event_def)

lemma detect_departed [simp]: "departed_events nm (snd (detect m results frame_no now)) = []"
  by (simp add: detect_def loop1_departed) (simp add: departed_events_def)

lemma process_announce:
  "announce_events nm (fst (process_recognition_results m results frame_no now)) =
     announce_events nm (snd (detect m results frame_no now))"
proof -
  from process_events [of m results frame_no now] obtain nf where
    "fst (process_recognition_results m results frame_no now) =
     snd (detect m results frame_no now) @
     map (\<lambda>n. departed_event n (frame_of m frame_no) now)
       (snd (snd (departures m results frame_no now))) @ nf"
    "nf = [] \<or> nf = [no_faces_event (frame_of m frame_no) now]"
    by blast
  moreover from this have "announce_events nm nf = []"
    by (auto simp: announce_events_def no_faces_event_def)
  ultimately show ?thesis
    by simp
qed

lemma process_departed:
  assumes "distinct (map fst (current_state m))"
  shows "departed_events nm (fst (process_recognition_results m results frame_no now)) =
     (case tracked (fst (detect m results frame_no now)) nm of
        None \<Rightarrow> []
      | Some s \<Rightarrow>
          if nm \<notin> fst ` set results \<and> departs (EventManager.departed_frames m) s
          then [departed_event nm (frame_of m frame_no) now] else [])"
proof -
  let ?m1 = "fst (detect m results frame_no now)"
  let ?dn = "snd (snd (departures m results frame_no now))"
  have d1: "distinct (map fst (current_state ?m1))"
    using assms by (rule detect_distinct)
  from process_events [of m results frame_no now] obtain nf where
    ev: "fst (process_recognition_results m results frame_no now) =
     snd (detect m results frame_no now) @
     map (\<lambda>n. departed_event n (frame_of m frame_no) now) ?dn @ nf"
    and nf: "nf = [] \<or> nf = [no_faces_event (frame_of m frame_no) now]"
    by blast
  have nf': "departed_events nm nf = []"
    using nf by (auto simp: departed_events_def no_faces_event_def)
  have dn: "distinct ?dn"
    unfolding departures_def using d1 by (rule check_departed_names_distinct)
  have mem: "nm \<in> set ?dn \<longleftrightarrow>
     (case tracked ?m1 nm of None \<Rightarrow> False
      | Some s \<Rightarrow> nm \<notin> fst ` set results \<and> departs (EventManager.departed_frames m) s)"
    unfolding departures_def tracked_def by (rule check_departed_names_map_of [OF d1])
  show ?thesis
    unfolding ev
    by (simp add: nf' departed_events_departed [OF dn] mem split: option.splits)
qed

lemma detect_no_faces:
  "e \<in> set (snd (detect m results frame_no now)) \<Longrightarrow> event_type e \<noteq> NO_FACES"
proof -
  have a: "\<forall>e \<in> set (snd acc). event_type e \<noteq> NO_FACES \<Longrightarrow>
     \<forall>e \<in> set (snd (fold (process_detected fn now) results acc)). event_type e \<noteq> NO_FACES"
    for fn acc
  proof (induction results arbitrary: acc)
    case Nil
    then show ?case by simp
  next
    case (Cons det results)
    have "\<forall>e \<in> set (snd (process_detected fn now det acc)). event_type e \<noteq> NO_FACES"
      using Cons.prems
      by (auto simp: process_detected_def Let_def split: prod.splits option.splits)
    from Cons.IH [OF this] show ?case by simp
  qed
  have "\<forall>e \<in> set (snd (detect m results frame_no now)). event_type e \<noteq> NO_FACES"
    unfolding detect_def by (rule a) simp
  then show "e \<in> set (snd (detect m results frame_no now)) \<Longrightarrow> event_type e \<noteq> NO_FACES"
    by blast
qed

lemma process_no_faces:
  assumes "e \<in> set (fst (process_recognition_results m results frame_no now))"
    and "event_type e = NO_FACES"
  shows "current_state (snd (process_recognition_results m results frame_no now)) = [] \<and> results = []"
proof -
  from process_events [of m results frame_no now] obtain nf where
    ev: "fst (process_recognition_results m results frame_no now) =
     snd (detect m results frame_no now) @
     map (\<lambda>n. departed_event n (frame_of m frame_no) now)
       (snd (snd (departures m results frame_no now))) @ nf"
    and nf: "nf = [] \<or> nf = [no_faces_event (frame_of m frame_no) now] \<and> results = [] \<and>
        current_state (snd (process_recognition_results m results frame_no now)) = []"
    by blast
  from assms have "e \<in> set nf"
    unfolding ev using detect_no_faces [of e m results frame_no now]
    by (auto simp: departed_event_def)
  with nf show ?thesis by auto
qed

lemma process_distinct:
  assumes "distinct (map fst (current_state m))"
  shows "distinct (map fst (current_state (snd (process_recognition_results m results frame_no now))))"
proof -
  let ?m1 = "fst (detect m results frame_no now)"
  have d1: "distinct (map fst (current_state ?m1))"
    using assms by (rule detect_distinct)
  have unf: "current_state (snd (process_recognition_results m results frame_no now)) =
     (let cd = check_departed (EventManager.departed_frames m) (fst ` set results)
                 (frame_of m frame_no) now (current_state ?m1)
      in fold AList.delete (snd (snd cd)) (fst cd))"
    by (simp add: current_state_process departures_def Let_def)
  show ?thesis
    unfolding unf Let_def using d1
    by (intro distinct_fold_delete) (simp add: check_departed_keys)
qed

lemma process_tracked_present:
  assumes "nm \<in> fst ` set results"
  shows "tracked (snd (process_recognition_results m results frame_no now)) nm =
     tracked (fst (detect m results frame_no now)) nm"
proof -
  have "nm \<notin> set (snd (snd (departures m results frame_no now)))"
    using assms unfolding departures_def check_departed_names by blast
  then show ?thesis
    using assms
    by (simp add: tracked_def current_state_process map_of_fold_delete)
       (simp add: departures_def check_departed_lookup option.map_ident)
qed

lemma departed_events_departed_other:
  "nm \<notin> set ns \<Longrightarrow> departed_events nm (map (\<lambda>n. departed_event n fn now) ns) = []"
  by (induction ns) (auto simp: departed_events_def departed_event_def)

lemma process_departed_present:
  assumes "nm \<in> fst ` set results"
  shows "departed_events nm (fst (process_recognition_results m results frame_no now)) = []"
proof -
  let ?dn = "snd (snd (departures m results frame_no now))"
  from process_events [of m results frame_no now] obtain nf where
    ev: "fst (process_recognition_results m results frame_no now) =
     snd (detect m results frame_no now) @
     map (\<lambda>n. departed_event n (frame_of m frame_no) now) ?dn @ nf"
    and nf: "nf = [] \<or> nf = [no_faces_event (frame_of m frame_no) now] \<and> results = [] \<and>
        current_state (snd (process_recognition_results m results frame_no now)) = []"
    by blast
  have nf': "nf = []" using nf assms by auto
  have "nm \<notin> set ?dn"
    using assms unfolding departures_def check_departed_names by blast
  then have "departed_events nm (map (\<lambda>n. departed_event n (frame_of m frame_no) now) ?dn) = []"
    by (rule departed_events_departed_other)
  then show ?thesis
    unfolding ev by (simp add: nf')
qed

lemma cycle_present_tracked:
  assumes "nm \<in> fst ` set results" and "tracked m nm = Some s"
  shows "\<exists>s'. tracked (snd (process_recognition_results m results frame_no now)) nm = Some s' \<and>
     consecutive_frames s' = consecutive_frames s + occurrences nm results \<and>
     PersonState.departed_frames s' = 0 \<and>
     (event_triggered s' \<longleftrightarrow> event_triggered s \<or>
        (consecutive_frames s < debounce_frames m \<and>
         debounce_frames m \<le> consecutive_frames s + occurrences nm results)) \<and>
     length (announce_events nm (fst (process_recognition_results m results frame_no now))) =
       (if \<not> event_triggered s \<and> consecutive_frames s < debounce_frames m \<and>
           debounce_frames m \<le> consecutive_frames s + occurrences nm results then 1 else 0)"
proof -
  have t: "tracked (begin_cycle m frame_no) nm = Some s"
    using assms(2) by simp
  have pos: "0 < occurrences nm results"
    using assms(1) by (simp add: occurrences_pos_iff)
  from loop1_tracked [OF t, of "frame_of m frame_no" now results "[]"] pos
  show ?thesis
    unfolding process_tracked_present [OF assms(1)] process_announce detect_def
    by (auto simp: announce_events_def)
qed

lemma cycle_present_untracked:
  assumes "nm \<in> fst ` set results" and "tracked m nm = None"
  shows "\<exists>s'. tracked (snd (process_recognition_results m results frame_no now)) nm = Some s' \<and>
     consecutive_frames s' = occurrences nm results \<and>
     PersonState.departed_frames s' = 0 \<and>
     (event_triggered s' \<longleftrightarrow>
        1 < debounce_frames m \<and> debounce_frames m \<le> occurrences nm results) \<and>
     length (announce_events nm (fst (process_recognition_results m results frame_no now))) =
       (if 1 < debounce_frames m \<and> debounce_frames m \<le> occurrences nm results then 1 else 0)"
proof -
  have t: "tracked (begin_cycle m frame_no) nm = None"
    using assms(2) by simp
  have pos: "0 < occurrences nm results"
    using assms(1) by (simp add: occurrences_pos_iff)
  from loop1_untracked [OF t, of results "frame_of m frame_no" now "[]"] pos
  show ?thesis
    unfolding process_tracked_present [OF assms(1)] process_announce detect_def
    by (auto simp: announce_events_def)
qed

lemma detect_absent:
  assumes "nm \<notin> fst ` set results"
  shows "tracked (fst (detect m results frame_no now)) nm = tracked m nm"
proof -
  have z: "occurrences nm results = 0"
    using assms occurrences_pos_iff [of nm results] occurrences_nonneg [of nm results] by auto
  show ?thesis
  proof (cases "tracked m nm")
    case None
    then have "tracked (begin_cycle m frame_no) nm = None" by simp
    from loop1_untracked [OF this, of results "frame_of m frame_no" now "[]"] z None
    show ?thesis by (simp add: detect_def)
  next
    case (Some s)
    then have "tracked (begin_cycle m frame_no) nm = Some s" by simp
    from loop1_tracked [OF this, of "frame_of m frame_no" now results "[]"] z Some
    show ?thesis by (auto simp: detect_def)
  qed
qed

lemma cycle_absent:
  assumes "nm \<notin> fst ` set results" and "tracked m nm = Some s"
    and "distinct (map fst (current_state m))"
  shows "tracked (snd (process_recognition_results m results frame_no now)) nm =
           (if departs (EventManager.departed_frames m) s then None else Some (absent_state s))"
    and "departed_events nm (fst (process_recognition_results m results frame_no now)) =
           (if departs (EventManager.departed_frames m) s
            then [departed_event nm (frame_of m frame_no) now] else [])"
    and "announce_events nm (fst (process_recognition_results m results frame_no now)) = []"
proof -
  have t: "tracked (fst (detect m results frame_no now)) nm = Some s"
    using detect_absent [OF assms(1)] assms(2) by simp
  show "tracked (snd (process_recognition_results m results frame_no now)) nm =
           (if departs (EventManager.departed_frames m) s then None else Some (absent_state s))"
    using assms(1) by (simp add: process_tracked [OF assms(3)] t)
  show "departed_events nm (fst (process_recognition_results m results frame_no now)) =
           (if departs (EventManager.departed_frames m) s
            then [departed_event nm (frame_of m frame_no) now] else [])"
    using assms(1) by (simp add: process_departed [OF assms(3)] t)
  have z: "occurrences nm results = 0"
    using assms(1) occurrences_pos_iff [of nm results] occurrences_nonneg [of nm results] by auto
  have "tracked (begin_cycle m frame_no) nm = Some s" using assms(2) by simp
  from loop1_tracked [OF this, of "frame_of m frame_no" now results "[]"] z
  have "length (announce_events nm (snd (detect m results frame_no now))) = length (announce_events nm [])"
    by (auto simp: detect_def)
  then show "announce_events nm (fst (process_recognition_results m results frame_no now)) = []"
    by (simp add: process_announce) (simp add: announce_events_def)
qed

section \<open>Concrete batches and cycles\<close>

text \<open>The detections of the demo in \<open>main\<close>, submitted one per cycle without a frame number.\<close>

definition alice :: detection where "alice = (''Alice'', 85/100, (100, 200, 300, 100))"
definition seen :: cycle where "seen = ([alice], None, 0)"
definition nobody :: cycle where "nobody = ([], None, 0)"

definition bob :: detection where "bob = (''Bob'', 78/100, (150, 500, 350, 400))"

definition bob_seen :: cycle where "bob_seen = ([bob], None, 0)"

text \<open>The manager after a non-empty sequence of cycles, and a state of Alice.\<close>

definition after_cycles :: "EventManager \<Rightarrow> cycle list \<Rightarrow> EventManager" where
  "after_cycles m cycles = snd (last (run_cycles m cycles))"

definition alice_state :: "int \<Rightarrow> int \<Rightarrow> bool \<Rightarrow> PersonState" where
  "alice_state c a t =
     \<lparr>PersonState.name = ''Alice'', consecutive_frames = c, PersonState.departed_frames = a,
      last_confidence = 85/100, last_bbox = Some (100, 200, 300, 100), event_triggered = t\<rparr>"

section \<open>Counters, departure and lingering states\<close>

text \<open>
  What every manager satisfies between calls: the dict has one entry per name and no
  counter is negative.
\<close>

definition counters_ok :: "EventManager \<Rightarrow> bool" where
  "counters_ok m \<longleftrightarrow>
     distinct (map fst (current_state m)) \<and>
     (\<forall>(nm, s) \<in> set (current_state m).
        0 \<le> consecutive_frames s \<and> 0 \<le> PersonState.departed_frames s)"

lemma tracked_iff:
  "distinct (map fst (current_state m)) \<Longrightarrow> tracked m nm = Some s \<longleftrightarrow> (nm, s) \<in> set (current_state m)"
  by (simp add: tracked_def)

lemma cycle_counters:
  assumes ok: "counters_ok m"
    and t: "tracked (snd (process_recognition_results m results frame_no now)) nm = Some s'"
  shows "(0 < consecutive_frames s') = (PersonState.departed_frames s' = 0) \<and>
         0 \<le> consecutive_frames s' \<and> 0 \<le> PersonState.departed_frames s'"
proof -
  have d: "distinct (map fst (current_state m))"
    using ok by (simp add: counters_ok_def)
  have nonneg: "0 \<le> consecutive_frames s \<and> 0 \<le> PersonState.departed_frames s"
    if "tracked m nm = Some s" for s
    using ok that tracked_iff [OF d, of nm s] by (auto simp: counters_ok_def)
  show ?thesis
  proof (cases "nm \<in> fst ` set results")
    case True
    have pos: "0 < occurrences nm results"
      using True by (simp add: occurrences_pos_iff)
    show ?thesis
    proof (cases "tracked m nm")
      case None
      from cycle_present_untracked [OF True None, of frame_no now] t pos
      show ?thesis by auto
    next
      case (Some s)
      from cycle_present_tracked [OF True Some, of frame_no now] t pos nonneg [OF Some]
      show ?thesis by auto
    qed
  next
    case False
    show ?thesis
    proof (cases "tracked m nm")
      case None
      have "tracked (snd (process_recognition_results m results frame_no now)) nm = None"
        using detect_absent [OF False, of m frame_no now] None
        by (simp add: process_tracked [OF d])
      with t show ?thesis by simp
    next
      case (Some s)
      from cycle_absent(1) [OF False Some d, of frame_no now] t nonneg [OF Some]
      show ?thesis by (auto simp: absent_state_def split: if_splits)
    qed
  qed
qed

lemma counters_ok_process:
  assumes "counters_ok m"
  shows "counters_ok (snd (process_recognition_results m results frame_no now))"
proof -
  have d: "distinct (map fst (current_state m))"
    using assms by (simp add: counters_ok_def)
  have d': "distinct (map fst (current_state (snd (process_recognition_results m results frame_no now))))"
    using d by (rule process_distinct)
  show ?thesis
    unfolding counters_ok_def
    using d' cycle_counters [OF assms, of results frame_no now] tracked_iff [OF d']
    by auto
qed

lemma counters_ok_new: "counters_ok (new_EventManager d t h)"
  by (simp add: counters_ok_def new_EventManager_def)

lemma counters_ok_reset: "counters_ok (reset m)"
  by (simp add: counters_ok_def reset_def)

text \<open>
  C5. After every call of \<open>process_recognition_results\<close>, every tracked state has
  \<open>consecutive_frames > 0\<close> exactly when \<open>departed_frames = 0\<close>. The calls start from a
  manager whose dict has distinct keys and counters that are not negative
  (\<open>counters_ok\<close>), which holds for a new manager, after \<open>reset\<close> and after every call.
\<close>

theorem presence_absence_invariant:
  assumes "counters_ok m"
  shows "\<forall>(events, m') \<in> set (run_cycles m cycles). \<forall>(nm, s) \<in> set (current_state m').
           (0 < consecutive_frames s) = (PersonState.departed_frames s = 0)"
  using assms
proof (induction cycles arbitrary: m)
  case Nil
  show ?case by simp
next
  case (Cons c cycles)
  obtain results frame_no now where c: "c = (results, frame_no, now)"
    by (cases c) auto
  let ?r = "process_recognition_results m results frame_no now"
  have ok: "counters_ok (snd ?r)"
    using Cons.prems by (rule counters_ok_process)
  have d': "distinct (map fst (current_state (snd ?r)))"
    using ok by (simp add: counters_ok_def)
  have here: "\<forall>(nm, s) \<in> set (current_state (snd ?r)).
           (0 < consecutive_frames s) = (PersonState.departed_frames s = 0)"
    using cycle_counters [OF Cons.prems, of results frame_no now] tracked_iff [OF d']
    by auto
  from Cons.IH [OF ok] here show ?case
    by (simp add: c case_prod_beta)
qed

theorem presence_absence_invariant_witness:
  "counters_ok (new_EventManager 3 3 100) \<and>
   last (run_cycles (new_EventManager 3 3 100) [seen, seen, seen, nobody])
     \<in> set (run_cycles (new_EventManager 3 3 100) [seen, seen, seen, nobody]) \<and>
   (''Alice'', alice_state 0 1 True)
     \<in> set (current_state (snd (last (run_cycles (new_EventManager 3 3 100) [seen, seen, seen, nobody])))) \<and>
   (0 < consecutive_frames (alice_state 0 1 True)) =
     (PersonState.departed_frames (alice_state 0 1 True) = 0)"
proof -
  let ?m = "new_EventManager 3 3 100" and ?cs = "[seen, seen, seen, nobody]"
  have ok: "counters_ok ?m"
    by (simp add: counters_ok_def new_EventManager_def)
  have ne: "run_cycles ?m ?cs \<noteq> []"
    by (simp add: seen_def)
  then have mem: "last (run_cycles ?m ?cs) \<in> set (run_cycles ?m ?cs)"
    by (rule last_in_set)
  have st: "current_state (snd (last (run_cycles ?m ?cs))) = [(''Alice'', alice_state 0 1 True)]"
    by code_simp
  from presence_absence_invariant [OF ok, of ?cs] mem st
  have "(0 < consecutive_frames (alice_state 0 1 True)) =
     (PersonState.departed_frames (alice_state 0 1 True) = 0)"
    by (auto simp: case_prod_beta)
  with ok mem st show ?thesis by simp
qed


text \<open>A cycle whose batch does not list the name.\<close>

definition absent_in :: "string \<Rightarrow> cycle \<Rightarrow> bool" where
  "absent_in nm c \<longleftrightarrow> nm \<notin> fst ` set (fst c)"

text \<open>
  C10. A tracked state whose announce event never fired (\<open>event_triggered\<close> false) is
  not removed by absent cycles, however many: after the \<open>i+1\<close>-th absent cycle it is
  still tracked with its absence counter at \<open>departed_frames + i + 1\<close> (so past any
  threshold), no DEPARTED event for it is emitted, and no NO_FACES event is emitted in
  any of these cycles, the dict not being empty.
\<close>

theorem unannounced_state_lingers:
  assumes "tracked m nm = Some s" and "\<not> event_triggered s"
    and "distinct (map fst (current_state m))"
    and "\<forall>c \<in> set cycles. absent_in nm c" and "i < length cycles"
  shows "(\<exists>s'. tracked (snd (run_cycles m cycles ! i)) nm = Some s' \<and> \<not> event_triggered s' \<and>
            PersonState.departed_frames s' = PersonState.departed_frames s + int i + 1) \<and>
         departed_events nm (fst (run_cycles m cycles ! i)) = [] \<and>
         (\<forall>e \<in> set (fst (run_cycles m cycles ! i)). event_type e \<noteq> NO_FACES)"
  using assms
proof (induction cycles arbitrary: m s i)
  case Nil
  then show ?case by simp
next
  case (Cons c cycles)
  obtain results frame_no now where c: "c = (results, frame_no, now)"
    by (cases c) auto
  let ?r = "process_recognition_results m results frame_no now"
  have ab: "nm \<notin> fst ` set results"
    using Cons.prems(4) by (simp add: c absent_in_def)
  have nd: "\<not> departs (EventManager.departed_frames m) s"
    using Cons.prems(2) by (simp add: departs_def)
  have t1: "tracked (snd ?r) nm = Some (absent_state s)"
    using cycle_absent(1) [OF ab Cons.prems(1,3), of frame_no now] nd by simp
  have e1: "departed_events nm (fst ?r) = []"
    using cycle_absent(2) [OF ab Cons.prems(1,3), of frame_no now] nd by simp
  have n1: "\<forall>e \<in> set (fst ?r). event_type e \<noteq> NO_FACES"
  proof
    fix e assume e: "e \<in> set (fst ?r)"
    show "event_type e \<noteq> NO_FACES"
    proof
      assume "event_type e = NO_FACES"
      from process_no_faces [OF e this] have "current_state (snd ?r) = []" by (rule conjunct1)
      with t1 show False by (simp add: tracked_def)
    qed
  qed
  have d1: "distinct (map fst (current_state (snd ?r)))"
    using Cons.prems(3) by (rule process_distinct)
  show ?case
  proof (cases i)
    case 0
    then show ?thesis
      using t1 e1 n1 Cons.prems(2) by (simp add: c absent_state_def)
  next
    case (Suc j)
    have nt: "\<not> event_triggered (absent_state s)"
      using Cons.prems(2) by (simp add: absent_state_def)
    have rest: "\<forall>c \<in> set cycles. absent_in nm c" and j: "j < length cycles"
      using Cons.prems(4,5) Suc by simp_all
    from Cons.IH [OF t1 nt d1 rest j] show ?thesis
      by (simp add: c Suc absent_state_def)
  qed
qed

theorem unannounced_state_lingers_witness:
  "tracked (after_cycles (new_EventManager 3 3 100) [seen]) ''Alice'' = Some (alice_state 1 0 False) \<and>
   \<not> event_triggered (alice_state 1 0 False) \<and>
   distinct (map fst (current_state (after_cycles (new_EventManager 3 3 100) [seen]))) \<and>
   absent_in ''Alice'' bob_seen \<and>
   (3::nat) < length [bob_seen, bob_seen, bob_seen, bob_seen] \<and>
   (\<exists>s'. tracked (snd (run_cycles (after_cycles (new_EventManager 3 3 100) [seen])
                          [bob_seen, bob_seen, bob_seen, bob_seen] ! 3)) ''Alice'' = Some s' \<and>
         \<not> event_triggered s' \<and> PersonState.departed_frames s' = 4) \<and>
   departed_events ''Alice'' (fst (run_cycles (after_cycles (new_EventManager 3 3 100) [seen])
                          [bob_seen, bob_seen, bob_seen, bob_seen] ! 3)) = [] \<and>
   map person_name (fst (run_cycles (after_cycles (new_EventManager 3 3 100) [seen])
                          [bob_seen, bob_seen, bob_seen, bob_seen] ! 2)) = [''Bob''] \<and>
   event_type (hd (fst (run_cycles (after_cycles (new_EventManager 3 3 100) [seen])
                          [bob_seen, bob_seen, bob_seen, bob_seen] ! 2))) \<noteq> NO_FACES"
proof -
  let ?m = "after_cycles (new_EventManager 3 3 100) [seen]"
  let ?cs = "[bob_seen, bob_seen, bob_seen, bob_seen]"
  have h1: "tracked ?m ''Alice'' = Some (alice_state 1 0 False)" by code_simp
  have h2: "\<not> event_triggered (alice_state 1 0 False)" by (simp add: alice_state_def)
  have h3: "distinct (map fst (current_state ?m))" by code_simp
  have h4: "absent_in ''Alice'' bob_seen" by (simp add: absent_in_def bob_seen_def bob_def)
  then have h4': "\<forall>c \<in> set ?cs. absent_in ''Alice'' c" by simp
  have h5: "(3::nat) < length ?cs" and h5': "(2::nat) < length ?cs" by simp_all
  have d: "PersonState.departed_frames (alice_state 1 0 False) + int 3 + 1 = 4"
    by (simp add: alice_state_def)
  have ev: "map person_name (fst (run_cycles ?m ?cs ! 2)) = [''Bob'']" by code_simp
  then have "hd (fst (run_cycles ?m ?cs ! 2)) \<in> set (fst (run_cycles ?m ?cs ! 2))"
    by (cases "fst (run_cycles ?m ?cs ! 2)") auto
  with unannounced_state_lingers [OF h1 h2 h3 h4' h5']
  have nf: "event_type (hd (fst (run_cycles ?m ?cs ! 2))) \<noteq> NO_FACES" by blast
  from unannounced_state_lingers [OF h1 h2 h3 h4' h5] show ?thesis
    unfolding d using h1 h2 h3 h4 h5 ev nf by blast
qed

lemma departure_run:
  assumes "tracked m nm = Some s" and "event_triggered s"
    and "distinct (map fst (current_state m))"
    and "\<forall>c \<in> set cycles. absent_in nm c"
    and "int (length cycles) = EventManager.departed_frames m - PersonState.departed_frames s"
    and "i < length cycles"
  shows "(Suc i < length cycles \<longrightarrow>
            (\<exists>s'. tracked (snd (run_cycles m cycles ! i)) nm = Some s' \<and> event_triggered s' \<and>
               PersonState.departed_frames s' = PersonState.departed_frames s + int i + 1) \<and>
            departed_events nm (fst (run_cycles m cycles ! i)) = []) \<and>
         (Suc i = length cycles \<longrightarrow>
            tracked (snd (run_cycles m cycles ! i)) nm = None \<and>
            (\<exists>fn now. departed_events nm (fst (run_cycles m cycles ! i)) = [departed_event nm fn now]))"
  using assms
proof (induction cycles arbitrary: m s i)
  case Nil
  then show ?case by simp
next
  case (Cons c cycles)
  obtain results frame_no now where c: "c = (results, frame_no, now)"
    by (cases c) auto
  let ?r = "process_recognition_results m results frame_no now"
  have ab: "nm \<notin> fst ` set results"
    using Cons.prems(4) by (simp add: c absent_in_def)
  have "int (length cycles) + 1 = EventManager.departed_frames m - PersonState.departed_frames s"
    using Cons.prems(5) by simp
  then have "PersonState.departed_frames s + 1 = EventManager.departed_frames m \<longleftrightarrow> length cycles = 0"
    by linarith
  then have dp: "departs (EventManager.departed_frames m) s \<longleftrightarrow> cycles = []"
    using Cons.prems(2) by (simp add: departs_def)
  note st = cycle_absent(1) [OF ab Cons.prems(1,3), of frame_no now]
  note ev = cycle_absent(2) [OF ab Cons.prems(1,3), of frame_no now]
  show ?case
  proof (cases "cycles = []")
    case True
    then have "i = 0" using Cons.prems(6) by simp
    then show ?thesis
      using True st ev dp by (auto simp: c)
  next
    case False
    have t1: "tracked (snd ?r) nm = Some (absent_state s)"
      using st dp False by simp
    have e1: "departed_events nm (fst ?r) = []"
      using ev dp False by simp
    show ?thesis
    proof (cases i)
      case 0
      then show ?thesis
        using t1 e1 False Cons.prems(2) by (simp add: c absent_state_def)
    next
      case (Suc j)
      have tr: "event_triggered (absent_state s)"
        using Cons.prems(2) by (simp add: absent_state_def)
      have d1: "distinct (map fst (current_state (snd ?r)))"
        using Cons.prems(3) by (rule process_distinct)
      have rest: "\<forall>c \<in> set cycles. absent_in nm c" and j: "j < length cycles"
        using Cons.prems(4,6) Suc by simp_all
      have len: "int (length cycles) =
          EventManager.departed_frames (snd ?r) - PersonState.departed_frames (absent_state s)"
        using Cons.prems(5) by (simp add: absent_state_def)
      have nth: "run_cycles m (c # cycles) ! i = run_cycles (snd ?r) cycles ! j"
        by (simp add: c Suc)
      have dep: "PersonState.departed_frames (absent_state s) + int j + 1 =
          PersonState.departed_frames s + int i + 1"
        by (simp add: absent_state_def Suc)
      have l1: "Suc i < length (c # cycles) \<longleftrightarrow> Suc j < length cycles"
        and l2: "Suc i = length (c # cycles) \<longleftrightarrow> Suc j = length cycles"
        by (simp_all add: Suc)
      from Cons.IH [OF t1 tr d1 rest len j] show ?thesis
        unfolding nth l1 l2 dep .
    qed
  qed
qed

lemma reappearance:
  assumes "tracked m nm = None" and "occurrences nm results = 1"
  shows "\<exists>s'. tracked (snd (process_recognition_results m results frame_no now)) nm = Some s' \<and>
           consecutive_frames s' = 1 \<and> PersonState.departed_frames s' = 0 \<and>
           \<not> event_triggered s' \<and>
           announce_events nm (fst (process_recognition_results m results frame_no now)) = []"
proof -
  have "nm \<in> fst ` set results"
    using assms(2) occurrences_pos_iff [of nm results] by simp
  from cycle_present_untracked [OF this assms(1), of frame_no now] show ?thesis
    using assms(2) by auto
qed

text \<open>
  C8. For an identity whose announce event has fired, a run of absent cycles that takes
  its absence counter to the departure threshold emits no DEPARTED event for it before
  the last cycle of the run, exactly one in the last cycle, and removes its state there.
  When the identity is listed again, a fresh state is created: its presence counter
  counts that one observation (\<open>consecutive_frames = 1\<close>), \<open>event_triggered\<close> is false
  and no announce event is emitted, so debouncing begins anew.
\<close>

theorem departure_at_threshold:
  assumes "tracked m nm = Some s" and "event_triggered s"
    and "distinct (map fst (current_state m))"
    and "\<forall>c \<in> set cycles. absent_in nm c"
    and "int (length cycles) = EventManager.departed_frames m - PersonState.departed_frames s"
    and "cycles \<noteq> []"
  shows "(\<forall>i. Suc i < length cycles \<longrightarrow>
            (\<exists>s'. tracked (snd (run_cycles m cycles ! i)) nm = Some s' \<and> event_triggered s' \<and>
               PersonState.departed_frames s' = PersonState.departed_frames s + int i + 1) \<and>
            departed_events nm (fst (run_cycles m cycles ! i)) = []) \<and>
         (\<exists>fn now. departed_events nm (fst (last (run_cycles m cycles))) = [departed_event nm fn now]) \<and>
         tracked (snd (last (run_cycles m cycles))) nm = None \<and>
         (\<forall>results frame_no now. occurrences nm results = 1 \<longrightarrow>
            (\<exists>s'. tracked (snd (process_recognition_results (snd (last (run_cycles m cycles)))
                                  results frame_no now)) nm = Some s' \<and>
               consecutive_frames s' = 1 \<and> PersonState.departed_frames s' = 0 \<and>
               \<not> event_triggered s' \<and>
               announce_events nm (fst (process_recognition_results (snd (last (run_cycles m cycles)))
                                  results frame_no now)) = []))"
proof -
  have len: "length (run_cycles m cycles) = length cycles" for m
    by (induction cycles arbitrary: m) auto
  have lst: "last (run_cycles m cycles) = run_cycles m cycles ! (length cycles - 1)"
  proof -
    have "run_cycles m cycles \<noteq> []"
      using assms(6) len [of m] by (cases "run_cycles m cycles") auto
    then show ?thesis
      by (simp add: last_conv_nth len)
  qed
  have a: "\<forall>i. Suc i < length cycles \<longrightarrow>
            (\<exists>s'. tracked (snd (run_cycles m cycles ! i)) nm = Some s' \<and> event_triggered s' \<and>
               PersonState.departed_frames s' = PersonState.departed_frames s + int i + 1) \<and>
            departed_events nm (fst (run_cycles m cycles ! i)) = []"
    using departure_run [OF assms(1-5)] by (meson Suc_lessD)
  have "length cycles - 1 < length cycles" and "Suc (length cycles - 1) = length cycles"
    using assms(6) by simp_all
  from departure_run [OF assms(1-5) this(1)] this(2)
  have b: "tracked (snd (last (run_cycles m cycles))) nm = None"
    and c: "\<exists>fn now. departed_events nm (fst (last (run_cycles m cycles))) = [departed_event nm fn now]"
    unfolding lst by blast+
  show ?thesis
    using a b c reappearance [OF b] by blast
qed

theorem departure_at_threshold_witness:
  "tracked (after_cycles (new_EventManager 3 3 100) [seen, seen, seen]) ''Alice'' = Some (alice_state 3 0 True) \<and>
   event_triggered (alice_state 3 0 True) \<and>
   distinct (map fst (current_state (after_cycles (new_EventManager 3 3 100) [seen, seen, seen]))) \<and>
   absent_in ''Alice'' nobody \<and>
   int (length [nobody, nobody, nobody]) =
     EventManager.departed_frames (after_cycles (new_EventManager 3 3 100) [seen, seen, seen]) -
     PersonState.departed_frames (alice_state 3 0 True) \<and>
   Suc 1 < length [nobody, nobody, nobody] \<and>
   (\<exists>s'. tracked (snd (run_cycles (after_cycles (new_EventManager 3 3 100) [seen, seen, seen])
                          [nobody, nobody, nobody] ! 1)) ''Alice'' = Some s' \<and>
         PersonState.departed_frames s' = 2) \<and>
   (\<exists>fn now. departed_events ''Alice''
       (fst (last (run_cycles (after_cycles (new_EventManager 3 3 100) [seen, seen, seen])
                          [nobody, nobody, nobody]))) = [departed_event ''Alice'' fn now]) \<and>
   tracked (snd (last (run_cycles (after_cycles (new_EventManager 3 3 100) [seen, seen, seen])
                          [nobody, nobody, nobody]))) ''Alice'' = None \<and>
   occurrences ''Alice'' [alice] = 1 \<and>
   (\<exists>s'. tracked (snd (process_recognition_results
                 (snd (last (run_cycles (after_cycles (new_EventManager 3 3 100) [seen, seen, seen])
                          [nobody, nobody, nobody]))) [alice] None 0)) ''Alice'' = Some s' \<and>
         consecutive_frames s' = 1 \<and> \<not> event_triggered s')"
proof -
  let ?m = "after_cycles (new_EventManager 3 3 100) [seen, seen, seen]"
  let ?cs = "[nobody, nobody, nobody]"
  have h1: "tracked ?m ''Alice'' = Some (alice_state 3 0 True)" by code_simp
  have h2: "event_triggered (alice_state 3 0 True)" by (simp add: alice_state_def)
  have h3: "distinct (map fst (current_state ?m))" by code_simp
  have h4': "absent_in ''Alice'' nobody" by (simp add: absent_in_def nobody_def)
  then have h4: "\<forall>c \<in> set ?cs. absent_in ''Alice'' c" by simp
  have h5: "int (length ?cs) = EventManager.departed_frames ?m -
      PersonState.departed_frames (alice_state 3 0 True)" by code_simp
  have h6: "?cs \<noteq> []" by simp
  have h7: "Suc 1 < length ?cs" by simp
  have h8: "occurrences ''Alice'' [alice] = 1" by (simp add: alice_def)
  have d: "PersonState.departed_frames (alice_state 3 0 True) + int 1 + 1 = 2"
    by (simp add: alice_state_def)
  from departure_at_threshold [OF h1 h2 h3 h4 h5 h6] h7 h8 d show ?thesis
    using h1 h2 h3 h4' h5 by (metis (no_types, lifting))
qed

section \<open>Debouncing over a presence run\<close>

text \<open>
  A cycle whose batch lists the name, and one that lists it exactly once; the type of
  the announce event of a name.
\<close>

definition present_in :: "string \<Rightarrow> cycle \<Rightarrow> bool" where
  "present_in nm c \<longleftrightarrow> nm \<in> fst ` set (fst c)"

definition listed_once :: "string \<Rightarrow> cycle \<Rightarrow> bool" where
  "listed_once nm c \<longleftrightarrow> occurrences nm (fst c) = 1"


lemma listed_once_present: "listed_once nm c \<Longrightarrow> present_in nm c"
  using occurrences_pos_iff [of nm "fst c"] by (simp add: listed_once_def present_in_def)


lemma run_cycles_length [simp]: "length (run_cycles m cycles) = length cycles"
  by (induction cycles arbitrary: m) auto











section \<open>Frame numbers\<close>

lemma process_detected_state_indep:
  assumes "current_state (fst acc) = current_state (fst acc')"
    and "debounce_frames (fst acc) = debounce_frames (fst acc')"
  shows "current_state (fst (process_detected fn now det acc)) =
         current_state (fst (process_detected fn' now' det acc'))"
  using assms
  by (auto simp: process_detected_def Let_def split: prod.splits option.splits)

lemma fold_process_detected_state_indep:
  assumes "current_state (fst acc) = current_state (fst acc')"
    and "debounce_frames (fst acc) = debounce_frames (fst acc')"
  shows "current_state (fst (fold (process_detected fn now) results acc)) =
         current_state (fst (fold (process_detected fn' now') results acc'))"
  using assms
proof (induction results arbitrary: acc acc')
  case Nil
  then show ?case by simp
next
  case (Cons det results)
  have "current_state (fst (process_detected fn now det acc)) =
         current_state (fst (process_detected fn' now' det acc'))"
    using Cons.prems by (rule process_detected_state_indep)
  moreover have "debounce_frames (fst (process_detected fn now det acc)) =
         debounce_frames (fst (process_detected fn' now' det acc'))"
    using Cons.prems(2) by (simp add: process_detected_params)
  ultimately show ?case
    using Cons.IH by simp
qed

lemma check_departed_state_indep:
  "fst (check_departed thr cur fn now entries) = fst (check_departed thr cur fn' now' entries)"
  "snd (snd (check_departed thr cur fn now entries)) = snd (snd (check_departed thr cur fn' now' entries))"
  by (induction entries)
     (auto simp del: check_departed.simps simp add: check_departed_Cons check_departed_Nil)

lemma current_state_ignores_frame_number:
  "current_state (snd (process_recognition_results m results frame_no now)) =
   current_state (snd (process_recognition_results m results frame_no' now'))"
proof -
  have "current_state (fst (detect m results frame_no now)) =
        current_state (fst (detect m results frame_no' now'))"
    unfolding detect_def by (rule fold_process_detected_state_indep) simp_all
  then show ?thesis
    unfolding current_state_process departures_def
    using check_departed_state_indep [of "EventManager.departed_frames m" "fst ` set results"
        "frame_of m frame_no" now _ "frame_of m frame_no'" now']
    by simp
qed

text \<open>
  C4 (as amended). The counters do not depend on the frame number: the dict after a call
  is the same whatever \<open>frame_number\<close> (and clock) the call is given. So a batch
  submitted a second time under the same number counts again: a listed identity's
  \<open>consecutive_frames\<close> has advanced by twice its number of listings, and an unannounced
  identity that is not listed has \<open>departed_frames\<close> advanced by two.
\<close>

theorem resubmission_counts_again:
  "current_state (snd (process_recognition_results m results frame_no now)) =
     current_state (snd (process_recognition_results m results frame_no' now')) \<and>
   (\<forall>s. tracked m nm = Some s \<and> nm \<in> fst ` set results \<longrightarrow>
      (\<exists>s1 s2.
         tracked (snd (process_recognition_results m results (Some n) now)) nm = Some s1 \<and>
         tracked (snd (process_recognition_results
                    (snd (process_recognition_results m results (Some n) now))
                    results (Some n) now')) nm = Some s2 \<and>
         consecutive_frames s1 = consecutive_frames s + occurrences nm results \<and>
         consecutive_frames s2 = consecutive_frames s + 2 * occurrences nm results)) \<and>
   (\<forall>s. tracked m nm = Some s \<and> nm \<notin> fst ` set results \<and> \<not> event_triggered s \<and>
        distinct (map fst (current_state m)) \<longrightarrow>
      (\<exists>s1 s2.
         tracked (snd (process_recognition_results m results (Some n) now)) nm = Some s1 \<and>
         tracked (snd (process_recognition_results
                    (snd (process_recognition_results m results (Some n) now))
                    results (Some n) now')) nm = Some s2 \<and>
         PersonState.departed_frames s1 = PersonState.departed_frames s + 1 \<and>
         PersonState.departed_frames s2 = PersonState.departed_frames s + 2))"
proof -
  let ?r1 = "process_recognition_results m results (Some n) now"
  let ?r2 = "process_recognition_results (snd ?r1) results (Some n) now'"
  have a: "\<exists>s1 s2. tracked (snd ?r1) nm = Some s1 \<and> tracked (snd ?r2) nm = Some s2 \<and>
         consecutive_frames s1 = consecutive_frames s + occurrences nm results \<and>
         consecutive_frames s2 = consecutive_frames s + 2 * occurrences nm results"
    if t: "tracked m nm = Some s" and p: "nm \<in> fst ` set results" for s
  proof -
    from cycle_present_tracked [OF p t, of "Some n" now]
    obtain s1 where s1: "tracked (snd ?r1) nm = Some s1"
      "consecutive_frames s1 = consecutive_frames s + occurrences nm results" by blast
    from cycle_present_tracked [OF p s1(1), of "Some n" now']
    obtain s2 where s2: "tracked (snd ?r2) nm = Some s2"
      "consecutive_frames s2 = consecutive_frames s1 + occurrences nm results" by blast
    show ?thesis using s1 s2 by simp
  qed
  have b: "\<exists>s1 s2. tracked (snd ?r1) nm = Some s1 \<and> tracked (snd ?r2) nm = Some s2 \<and>
         PersonState.departed_frames s1 = PersonState.departed_frames s + 1 \<and>
         PersonState.departed_frames s2 = PersonState.departed_frames s + 2"
    if t: "tracked m nm = Some s" and p: "nm \<notin> fst ` set results" and nt: "\<not> event_triggered s"
      and d: "distinct (map fst (current_state m))" for s
  proof -
    have t1: "tracked (snd ?r1) nm = Some (absent_state s)"
      using cycle_absent(1) [OF p t d, of "Some n" now] nt by (simp add: departs_def)
    have d1: "distinct (map fst (current_state (snd ?r1)))"
      using d by (rule process_distinct)
    have nt1: "\<not> event_triggered (absent_state s)"
      using nt by (simp add: absent_state_def)
    have t2: "tracked (snd ?r2) nm = Some (absent_state (absent_state s))"
      using cycle_absent(1) [OF p t1 d1, of "Some n" now'] nt1 by (simp add: departs_def)
    show ?thesis using t1 t2 by (simp add: absent_state_def)
  qed
  show ?thesis
    using current_state_ignores_frame_number [of m results frame_no now frame_no' now'] a b
    by blast
qed

text \<open>
  The claim as stated fails: three submissions of the same batch under frame number 7
  take Alice's counter to 1, 2 and 3 and the third emits RECOGNIZED.
\<close>

definition alice_at :: "int \<Rightarrow> cycle" where
  "alice_at n = ([alice], Some n, 0)"

theorem resubmission_counts_again_counterexample:
  "tracked (snd (run_cycles (new_EventManager 3 3 100) [alice_at 7, alice_at 7, alice_at 7] ! 0))
     ''Alice'' = Some (alice_state 1 0 False) \<and>
   tracked (snd (run_cycles (new_EventManager 3 3 100) [alice_at 7, alice_at 7, alice_at 7] ! 1))
     ''Alice'' = Some (alice_state 2 0 False) \<and>
   tracked (snd (run_cycles (new_EventManager 3 3 100) [alice_at 7, alice_at 7, alice_at 7] ! 2))
     ''Alice'' = Some (alice_state 3 0 True) \<and>
   length (announce_events ''Alice''
     (fst (run_cycles (new_EventManager 3 3 100) [alice_at 7, alice_at 7, alice_at 7] ! 2))) = 1"
  by code_simp

theorem resubmission_counts_again_witness:
  "tracked (after_cycles (new_EventManager 3 3 100) [alice_at 7]) ''Alice'' = Some (alice_state 1 0 False) \<and>
   ''Alice'' \<in> fst ` set [alice] \<and>
   (\<exists>s2. tracked (snd (process_recognition_results
                    (snd (process_recognition_results (after_cycles (new_EventManager 3 3 100) [alice_at 7])
                       [alice] (Some 8) 0))
                    [alice] (Some 8) 0)) ''Alice'' = Some s2 \<and>
      consecutive_frames s2 = 3) \<and>
   ''Alice'' \<notin> fst ` set [bob] \<and> \<not> event_triggered (alice_state 1 0 False) \<and>
   distinct (map fst (current_state (after_cycles (new_EventManager 3 3 100) [alice_at 7]))) \<and>
   (\<exists>s2. tracked (snd (process_recognition_results
                    (snd (process_recognition_results (after_cycles (new_EventManager 3 3 100) [alice_at 7])
                       [bob] (Some 8) 0))
                    [bob] (Some 8) 0)) ''Alice'' = Some s2 \<and>
      PersonState.departed_frames s2 = 2)"
proof -
  let ?m = "after_cycles (new_EventManager 3 3 100) [alice_at 7]"
  have t: "tracked ?m ''Alice'' = Some (alice_state 1 0 False)" by code_simp
  have p: "''Alice'' \<in> fst ` set [alice]" by (simp add: alice_def)
  have q: "''Alice'' \<notin> fst ` set [bob]" by (simp add: bob_def)
  have nt: "\<not> event_triggered (alice_state 1 0 False)" by (simp add: alice_state_def)
  have d: "distinct (map fst (current_state ?m))" by code_simp
  have c1: "consecutive_frames (alice_state 1 0 False) + 2 * occurrences ''Alice'' [alice] = 3"
    by (simp add: alice_state_def alice_def)
  have c2: "PersonState.departed_frames (alice_state 1 0 False) + 2 = 2"
    by (simp add: alice_state_def)
  from resubmission_counts_again [of ?m "[alice]" None 0 None 0 "''Alice''" 8] t p
  have a: "\<exists>s2. tracked (snd (process_recognition_results
                    (snd (process_recognition_results ?m [alice] (Some 8) 0))
                    [alice] (Some 8) 0)) ''Alice'' = Some s2 \<and> consecutive_frames s2 = 3"
    using c1 by (metis (no_types, lifting))
  from resubmission_counts_again [of ?m "[bob]" None 0 None 0 "''Alice''" 8] t q nt d
  have b: "\<exists>s2. tracked (snd (process_recognition_results
                    (snd (process_recognition_results ?m [bob] (Some 8) 0))
                    [bob] (Some 8) 0)) ''Alice'' = Some s2 \<and> PersonState.departed_frames s2 = 2"
    using c2 by (metis (no_types, lifting))
  show ?thesis using t p q nt d a b by blast
qed

section \<open>Greeting coordinator (src/coordination/greeting_coordinator.py)\<close>

text \<open>
  What the coordinator does to the outside is kept in the log \<open>effects\<close>: the info line
  \<open>Greeting <name> (confidence: ...)\<close> written on entry to \<open>_execute_greeting\<close>, each call
  of \<open>behavior_manager.execute_behavior\<close>, and each call of the speech backend with the
  person's name.
\<close>

datatype effect = GreetingLog RecognitionEvent | GestureCall Behavior | SpeechCall string

text \<open>
  The coordinator object. \<open>tts_manager\<close>, \<open>adaptive_tts\<close> and \<open>greeting_selector\<close> say
  whether the attribute holds an object (is truthy); \<open>min_latency = None\<close> is
  \<open>float('inf')\<close>. \<open>behavior_manager\<close> and \<open>event_manager\<close> are the two managers the object
  refers to; the registered callback lives in \<open>callbacks\<close> of the event manager.
\<close>

record GreetingCoordinator =
  event_manager :: EventManager
  behavior_manager :: BehaviorManager
  gesture_speech_delay :: real
  use_enhanced_voice :: bool
  tts_manager :: bool
  adaptive_tts :: bool
  greeting_selector :: bool
  greeted_persons :: "string set"
  greeting_in_progress :: bool
  session_start :: real
  total_greetings :: int
  latencies :: "real list"
  avg_latency :: real
  max_latency :: real
  min_latency :: "real option"
  pending_greetings :: "RecognitionEvent list"
  effects :: "effect list"

text \<open>
  The collaborators the coordinator cannot see into: whether the speech call made after
  the effects so far raises for a name, and the total latency in ms that the two clock
  readings of a greeting give.
\<close>

record environment =
  speech_raises :: "effect list \<Rightarrow> string \<Rightarrow> bool"
  total_latency :: "effect list \<Rightarrow> real"

datatype outcome = Returned | Raised

text \<open>
  \<open>__init__\<close> with the settings given (no config file): the enhanced voice system
  creates its two objects when they are missing, and the callback is registered.
\<close>

definition new_GreetingCoordinator ::
  "EventManager \<Rightarrow> BehaviorManager \<Rightarrow> bool \<Rightarrow> bool \<Rightarrow> bool \<Rightarrow> real \<Rightarrow> bool \<Rightarrow> real
     \<Rightarrow> GreetingCoordinator" where
  "new_GreetingCoordinator em bm tts atts sel delay enhanced now =
     \<lparr>event_manager = snd (add_callback em PERSON_RECOGNIZED),
      behavior_manager = bm,
      gesture_speech_delay = delay,
      use_enhanced_voice = enhanced,
      tts_manager = tts,
      adaptive_tts = (atts \<or> enhanced),
      greeting_selector = (sel \<or> enhanced),
      greeted_persons = {},
      greeting_in_progress = False,
      session_start = now,
      total_greetings = 0,
      latencies = [],
      avg_latency = 0,
      max_latency = 0,
      min_latency = None,
      pending_greetings = [],
      effects = []\<rparr>"

text \<open>
  \<open>_execute_greeting\<close> up to and including \<open>time.sleep(self.gesture_speech_delay)\<close>: the
  log line and the gesture request, whose result is ignored. \<open>time.sleep\<close> raises
  ValueError on a negative delay.
\<close>

definition start_greeting ::
  "GreetingCoordinator \<Rightarrow> RecognitionEvent \<Rightarrow> outcome \<times> GreetingCoordinator" where
  "start_greeting c event =
     (let c1 = c\<lparr>effects := effects c @ [GreetingLog event]\<rparr>;
          c2 = c1\<lparr>behavior_manager := snd (execute_behavior (behavior_manager c1) greeting_wave),
                  effects := effects c1 @ [GestureCall greeting_wave]\<rparr>
      in if gesture_speech_delay c2 < 0 then (Raised, c2) else (Returned, c2))"

text \<open>Steps 4 and 5 of \<open>_execute_greeting\<close>: mark as greeted and track the latency.\<close>

definition mark_greeted ::
  "environment \<Rightarrow> GreetingCoordinator \<Rightarrow> RecognitionEvent \<Rightarrow> GreetingCoordinator" where
  "mark_greeted env c event =
     (let lat = total_latency env (effects c);
          ls = latencies c @ [lat]
      in c\<lparr>greeted_persons := insert (person_name event) (greeted_persons c),
            total_greetings := total_greetings c + 1,
            latencies := ls,
            avg_latency := sum_list ls / real (length ls),
            max_latency := max (max_latency c) lat,
            min_latency := Some (case min_latency c of None \<Rightarrow> lat | Some mn \<Rightarrow> min mn lat)\<rparr>)"

text \<open>
  The rest of \<open>_execute_greeting\<close>, from the speech call on. A call that raises leaves
  the function at once.
\<close>

definition finish_greeting ::
  "environment \<Rightarrow> GreetingCoordinator \<Rightarrow> RecognitionEvent \<Rightarrow> outcome \<times> GreetingCoordinator" where
  "finish_greeting env c event =
     (if (use_enhanced_voice c \<and> adaptive_tts c \<and> greeting_selector c) \<or> tts_manager c
      then
        (let c1 = c\<lparr>effects := effects c @ [SpeechCall (person_name event)]\<rparr>
         in if speech_raises env (effects c) (person_name event) then (Raised, c1)
            else (Returned, mark_greeted env c1 event))
      else (Returned, mark_greeted env c event))"

definition execute_greeting ::
  "environment \<Rightarrow> GreetingCoordinator \<Rightarrow> RecognitionEvent \<Rightarrow> outcome \<times> GreetingCoordinator" where
  "execute_greeting env c event =
     (case start_greeting c event of
        (Raised, c1) \<Rightarrow> (Raised, c1)
      | (Returned, c1) \<Rightarrow> finish_greeting env c1 event)"

lemma pending_execute_greeting [simp]:
  "pending_greetings (snd (execute_greeting env c event)) = pending_greetings c"
  by (simp add: execute_greeting_def start_greeting_def finish_greeting_def mark_greeted_def Let_def)

text \<open>
  \<open>_process_pending_greetings\<close>. The sort is Python's stable sort on the confidence
  with \<open>reverse=True\<close>; \<open>find\<close> is the \<open>for\<close> loop up to its \<open>break\<close>; the \<open>try\<close> around
  \<open>_execute_greeting\<close> discards what it raises.
\<close>

function process_pending_greetings ::
  "environment \<Rightarrow> GreetingCoordinator \<Rightarrow> GreetingCoordinator" where
  "process_pending_greetings env c =
     (if pending_greetings c = [] then c
      else
        (let c1 = c\<lparr>pending_greetings := sort_key (\<lambda>e. - confidence e) (pending_greetings c)\<rparr>
         in case find (\<lambda>e. person_name e \<notin> greeted_persons c1) (pending_greetings c1) of
              None \<Rightarrow> c1
            | Some event \<Rightarrow>
                (let c2 = c1\<lparr>pending_greetings := remove1 event (pending_greetings c1)\<rparr>;
                     c3 = c2\<lparr>greeting_in_progress := True\<rparr>;
                     c4 = snd (execute_greeting env c3 event);
                     c5 = c4\<lparr>greeting_in_progress := False\<rparr>
                 in process_pending_greetings env c5)))"
  by pat_completeness auto
termination
proof (relation "measure (\<lambda>(env, c). length (pending_greetings c))")
  show "wf (measure (\<lambda>(env, c). length (pending_greetings c)))"
    by simp
next
  fix env :: environment and c :: GreetingCoordinator and c1 event c2 c3 c4 c5
  assume ne: "pending_greetings c \<noteq> []"
    and c1: "c1 = c\<lparr>pending_greetings := sort_key (\<lambda>e. - confidence e) (pending_greetings c)\<rparr>"
    and f: "find (\<lambda>e. person_name e \<notin> greeted_persons c1) (pending_greetings c1) = Some event"
    and c2: "c2 = c1\<lparr>pending_greetings := remove1 event (pending_greetings c1)\<rparr>"
    and c3: "c3 = c2\<lparr>greeting_in_progress := True\<rparr>"
    and c4: "c4 = snd (execute_greeting env c3 event)"
    and c5: "c5 = c4\<lparr>greeting_in_progress := False\<rparr>"
  from f have "event \<in> set (pending_greetings c1)"
    by (auto simp: find_Some_iff)
  then have "length (remove1 event (pending_greetings c1)) < length (pending_greetings c1)"
    by (simp add: length_remove1) (cases "pending_greetings c1"; auto)
  then show "((env, c5), (env, c)) \<in> measure (\<lambda>(env, c). length (pending_greetings c))"
    by (simp add: c1 c2 c3 c4 c5)
qed

declare process_pending_greetings.simps [simp del]

text \<open>\<open>_on_person_recognized\<close>, the callback registered for PERSON_RECOGNIZED.\<close>

definition on_person_recognized ::
  "environment \<Rightarrow> GreetingCoordinator \<Rightarrow> RecognitionEvent \<Rightarrow> GreetingCoordinator" where
  "on_person_recognized env c event =
     (if person_name event \<in> greeted_persons c then c
      else if greeting_in_progress c
      then c\<lparr>pending_greetings := pending_greetings c @ [event]\<rparr>
      else
        (let c1 = c\<lparr>greeting_in_progress := True\<rparr>;
             c2 = snd (execute_greeting env c1 event);
             c3 = c2\<lparr>greeting_in_progress := False\<rparr>
         in process_pending_greetings env c3))"

definition reset_session :: "GreetingCoordinator \<Rightarrow> GreetingCoordinator" where
  "reset_session c = c\<lparr>greeted_persons := {}, pending_greetings := []\<rparr>"

definition has_greeted :: "GreetingCoordinator \<Rightarrow> string \<Rightarrow> bool" where
  "has_greeted c nm \<longleftrightarrow> nm \<in> greeted_persons c"

text \<open>The events handed to \<open>_execute_greeting\<close>, in order, as the log shows them.\<close>

fun greeting_log :: "effect list \<Rightarrow> RecognitionEvent list" where
  "greeting_log [] = []"
| "greeting_log (GreetingLog e # rest) = e # greeting_log rest"
| "greeting_log (GestureCall b # rest) = greeting_log rest"
| "greeting_log (SpeechCall nm # rest) = greeting_log rest"

section \<open>Deduplication, session reset and speech failure\<close>

text \<open>
  A RECOGNIZED event as the demo builds it, a speech backend that always returns and one
  that always raises, and a coordinator with the legacy TTS manager and a delay of 0.3 s.
\<close>

definition recognized :: "string \<Rightarrow> real \<Rightarrow> RecognitionEvent" where
  "recognized nm conf =
     \<lparr>event_type = PERSON_RECOGNIZED, timestamp = 0, person_name = nm, confidence = conf,
      bbox = Some (100, 200, 200, 100), frame_number = 1\<rparr>"

definition speech_works :: environment where
  "speech_works = \<lparr>speech_raises = (\<lambda>log nm. False), total_latency = (\<lambda>log. 350)\<rparr>"

definition speech_fails :: environment where
  "speech_fails = \<lparr>speech_raises = (\<lambda>log nm. True), total_latency = (\<lambda>log. 350)\<rparr>"

definition coordinator0 :: GreetingCoordinator where
  "coordinator0 =
     new_GreetingCoordinator (new_EventManager 3 3 100) new_BehaviorManager True False False (3/10) False 0"

text \<open>
  C6. When the subject of a RECOGNIZED event is already in the greeted set, the callback
  returns the coordinator as it was: no call of the scheduler, no call of the speech
  backend, and the greeted set, the pending queue, the counters and the latency samples
  are unchanged.
\<close>

theorem repeat_recognized_discarded:
  assumes "person_name event \<in> greeted_persons c"
  shows "on_person_recognized env c event = c \<and>
         effects (on_person_recognized env c event) = effects c \<and>
         behavior_manager (on_person_recognized env c event) = behavior_manager c"
  using assms by (simp add: on_person_recognized_def)

theorem repeat_recognized_discarded_witness:
  "person_name (recognized ''Alice'' (95/100))
     \<in> greeted_persons (on_person_recognized speech_works coordinator0 (recognized ''Alice'' (95/100))) \<and>
   length (effects (on_person_recognized speech_works coordinator0 (recognized ''Alice'' (95/100)))) = 3 \<and>
   on_person_recognized speech_works
     (on_person_recognized speech_works coordinator0 (recognized ''Alice'' (95/100)))
     (recognized ''Alice'' (95/100)) =
   on_person_recognized speech_works coordinator0 (recognized ''Alice'' (95/100))"
proof -
  let ?c = "on_person_recognized speech_works coordinator0 (recognized ''Alice'' (95/100))"
  have g: "person_name (recognized ''Alice'' (95/100)) \<in> greeted_persons ?c"
    by code_simp
  have l: "length (effects ?c) = 3"
    by code_simp
  from repeat_recognized_discarded [OF g, of speech_works] g l show ?thesis
    by blast
qed

text \<open>
  C9. \<open>reset_session\<close> empties the greeted set and the pending queue and changes no
  other field: the in-progress flag, the greeting count, the latency samples and their
  aggregates, the delay, the voice settings, the two managers (so the registered
  callbacks and the active behavior) and the log of outside calls stay as they were. A
  greeting in flight is not interrupted: the part of \<open>_execute_greeting\<close> after the
  delay has the same outcome and makes the same calls when the reset falls before it.
\<close>

theorem reset_session_frame:
  "greeted_persons (reset_session c) = {} \<and>
   pending_greetings (reset_session c) = [] \<and>
   greeting_in_progress (reset_session c) = greeting_in_progress c \<and>
   total_greetings (reset_session c) = total_greetings c \<and>
   latencies (reset_session c) = latencies c \<and>
   avg_latency (reset_session c) = avg_latency c \<and>
   max_latency (reset_session c) = max_latency c \<and>
   min_latency (reset_session c) = min_latency c \<and>
   gesture_speech_delay (reset_session c) = gesture_speech_delay c \<and>
   session_start (reset_session c) = session_start c \<and>
   use_enhanced_voice (reset_session c) = use_enhanced_voice c \<and>
   tts_manager (reset_session c) = tts_manager c \<and>
   adaptive_tts (reset_session c) = adaptive_tts c \<and>
   greeting_selector (reset_session c) = greeting_selector c \<and>
   event_manager (reset_session c) = event_manager c \<and>
   behavior_manager (reset_session c) = behavior_manager c \<and>
   effects (reset_session c) = effects c \<and>
   fst (finish_greeting env (reset_session c) event) = fst (finish_greeting env c event) \<and>
   effects (snd (finish_greeting env (reset_session c) event)) =
     effects (snd (finish_greeting env c event)) \<and>
   latencies (snd (finish_greeting env (reset_session c) event)) =
     latencies (snd (finish_greeting env c event)) \<and>
   greeting_in_progress (snd (finish_greeting env (reset_session c) event)) = greeting_in_progress c"
  by (simp add: reset_session_def finish_greeting_def mark_greeted_def Let_def)


definition speech_configured :: "GreetingCoordinator \<Rightarrow> bool" where
  "speech_configured c \<longleftrightarrow>
     (use_enhanced_voice c \<and> adaptive_tts c \<and> greeting_selector c) \<or> tts_manager c"

text \<open>
  C3 (as amended). If the speech backend call raises during \<open>_execute_greeting\<close> for a
  subject S, the function is left at once: the gesture has been requested and the speech
  call made, but S is not added to the greeted set, the greeting count is not
  incremented and no latency sample is recorded. The exception is caught in
  \<open>_on_person_recognized\<close>, which clears the in-progress flag; with nothing pending, the
  coordinator ends with S still not greeted, so a repeat RECOGNIZED for S is not
  discarded.
\<close>

theorem speech_failure_leaves_subject_ungreeted:
  assumes "speech_raises env (effects c @ [GreetingLog event, GestureCall greeting_wave])
             (person_name event)"
    and "speech_configured c" and "0 \<le> gesture_speech_delay c"
  shows "fst (execute_greeting env c event) = Raised \<and>
         greeted_persons (snd (execute_greeting env c event)) = greeted_persons c \<and>
         total_greetings (snd (execute_greeting env c event)) = total_greetings c \<and>
         latencies (snd (execute_greeting env c event)) = latencies c \<and>
         effects (snd (execute_greeting env c event)) =
           effects c @ [GreetingLog event, GestureCall greeting_wave, SpeechCall (person_name event)] \<and>
         (person_name event \<notin> greeted_persons c \<and> \<not> greeting_in_progress c \<and>
          pending_greetings c = [] \<longrightarrow>
            person_name event \<notin> greeted_persons (on_person_recognized env c event) \<and>
            latencies (on_person_recognized env c event) = latencies c \<and>
            total_greetings (on_person_recognized env c event) = total_greetings c \<and>
            \<not> greeting_in_progress (on_person_recognized env c event) \<and>
            effects (on_person_recognized env c event) =
              effects c @ [GreetingLog event, GestureCall greeting_wave, SpeechCall (person_name event)])"
proof -
  have ex: "execute_greeting env c' event =
      (Raised, c'\<lparr>behavior_manager := snd (execute_behavior (behavior_manager c') greeting_wave),
                   effects := effects c @ [GreetingLog event, GestureCall greeting_wave,
                                SpeechCall (person_name event)]\<rparr>)"
    if "effects c' = effects c" "speech_configured c'" "gesture_speech_delay c' = gesture_speech_delay c"
    for c'
    using that assms
    by (simp add: execute_greeting_def start_greeting_def finish_greeting_def Let_def
        speech_configured_def)
  have a: "execute_greeting env c event =
      (Raised, c\<lparr>behavior_manager := snd (execute_behavior (behavior_manager c) greeting_wave),
                   effects := effects c @ [GreetingLog event, GestureCall greeting_wave,
                                SpeechCall (person_name event)]\<rparr>)"
    using ex [of c] assms(2) by simp
  have b: "execute_greeting env (c\<lparr>greeting_in_progress := True\<rparr>) event =
      (Raised, c\<lparr>greeting_in_progress := True,
                   behavior_manager := snd (execute_behavior (behavior_manager c) greeting_wave),
                   effects := effects c @ [GreetingLog event, GestureCall greeting_wave,
                                SpeechCall (person_name event)]\<rparr>)"
    using ex [of "c\<lparr>greeting_in_progress := True\<rparr>"] assms(2) by (simp add: speech_configured_def)
  show ?thesis
    by (simp add: a) (simp add: on_person_recognized_def b Let_def process_pending_greetings.simps)
qed

theorem speech_failure_leaves_subject_ungreeted_counterexample:
  "speech_raises speech_fails (effects coordinator0 @ [GreetingLog (recognized ''Alice'' (95/100)),
       GestureCall greeting_wave]) ''Alice'' \<and>
   ''Alice'' \<notin> greeted_persons (on_person_recognized speech_fails coordinator0 (recognized ''Alice'' (95/100))) \<and>
   latencies (on_person_recognized speech_fails coordinator0 (recognized ''Alice'' (95/100))) = [] \<and>
   effects (on_person_recognized speech_fails
              (on_person_recognized speech_fails coordinator0 (recognized ''Alice'' (95/100)))
              (recognized ''Alice'' (95/100))) =
     [GreetingLog (recognized ''Alice'' (95/100)), GestureCall greeting_wave, SpeechCall ''Alice'',
      GreetingLog (recognized ''Alice'' (95/100)), GestureCall greeting_wave, SpeechCall ''Alice'']"
  by code_simp

theorem speech_failure_leaves_subject_ungreeted_witness:
  "speech_raises speech_fails
     (effects coordinator0 @ [GreetingLog (recognized ''Alice'' (95/100)), GestureCall greeting_wave])
     (person_name (recognized ''Alice'' (95/100))) \<and>
   speech_configured coordinator0 \<and> 0 \<le> gesture_speech_delay coordinator0 \<and>
   person_name (recognized ''Alice'' (95/100)) \<notin> greeted_persons coordinator0 \<and>
   \<not> greeting_in_progress coordinator0 \<and> pending_greetings coordinator0 = [] \<and>
   fst (execute_greeting speech_fails coordinator0 (recognized ''Alice'' (95/100))) = Raised \<and>
   person_name (recognized ''Alice'' (95/100))
     \<notin> greeted_persons (on_person_recognized speech_fails coordinator0 (recognized ''Alice'' (95/100))) \<and>
   latencies (on_person_recognized speech_fails coordinator0 (recognized ''Alice'' (95/100))) =
     latencies coordinator0"
proof -
  let ?e = "recognized ''Alice'' (95/100)"
  have h1: "speech_raises speech_fails (effects coordinator0 @ [GreetingLog ?e, GestureCall greeting_wave])
     (person_name ?e)"
    by (simp add: speech_fails_def)
  have h2: "speech_configured coordinator0"
    by (simp add: speech_configured_def coordinator0_def new_GreetingCoordinator_def)
  have h3: "0 \<le> gesture_speech_delay coordinator0"
    by (simp add: coordinator0_def new_GreetingCoordinator_def)
  have h4: "person_name ?e \<notin> greeted_persons coordinator0"
    and h5: "\<not> greeting_in_progress coordinator0" and h6: "pending_greetings coordinator0 = []"
    by (simp_all add: coordinator0_def new_GreetingCoordinator_def)
  from speech_failure_leaves_subject_ungreeted [OF h1 h2 h3] h4 h5 h6 show ?thesis
    using h1 h2 h3 by blast
qed

section \<open>Draining the pending queue\<close>

lemma greeting_log_append [simp]:
  "greeting_log (xs @ ys) = greeting_log xs @ greeting_log ys"
  by (induction xs rule: greeting_log.induct) simp_all















end
